theory Spec2Isabelle
  imports Complex_Main "HOL-Library.Word"
begin

unbundle bit_operations_syntax

section \<open>Hashing strategies (namespace shash::hashing)\<close>

text \<open>
  \<open>uint32_t\<close> is \<open>32 word\<close>: \<open>+\<close> and \<open>*\<close> wrap, \<open><<\<close> is \<open>push_bit\<close>, \<open>>>\<close> is
  \<open>drop_bit\<close>. The key buffer \<open>uint32_t buf[4]\<close> is a list of four words.
\<close>

type_synonym uint32 = "32 word"
type_synonym uint64 = "64 word"

definition rotl32 :: "uint32 \<Rightarrow> nat \<Rightarrow> uint32" where
  "rotl32 x r = (push_bit r x) OR (drop_bit (32 - r) x)"

definition fmix :: "uint32 \<Rightarrow> uint32" where
  "fmix h0 =
     (let h = h0 XOR drop_bit 16 h0;
          h = h * 0x85ebca6b;
          h = h XOR drop_bit 13 h;
          h = h * 0xc2b2ae35;
          h = h XOR drop_bit 16 h
      in h)"

definition Murmur_SEED :: uint32 where
  "Murmur_SEED = 15953071"

text \<open>One pass of the body of the \<open>for\<close> loop of \<open>Murmur::hash\<close>, on the word \<open>b[i]\<close>.\<close>

definition murmur_step :: "uint32 \<Rightarrow> uint32 \<Rightarrow> uint32" where
  "murmur_step h1 bi =
     (let k1 = bi;
          k1 = k1 * 0xcc9e2d51;
          k1 = rotl32 k1 15;
          k1 = k1 * 0x1b873593;
          h1 = h1 XOR k1;
          h1 = rotl32 h1 13;
          h1 = h1 * 5 + 0xe6546b64
      in h1)"

definition murmur_hash :: "uint32 list \<Rightarrow> uint32" where
  "murmur_hash b =
     (let h1 = foldl murmur_step Murmur_SEED (map (\<lambda>i. b ! i) [0..<4]);
          h1 = h1 XOR (4 * 4)
      in fmix h1)"

definition PRIME32_1 :: uint32 where "PRIME32_1 = 2654435761"
definition PRIME32_2 :: uint32 where "PRIME32_2 = 2246822519"
definition PRIME32_3 :: uint32 where "PRIME32_3 = 3266489917"
definition PRIME32_4 :: uint32 where "PRIME32_4 = 668265263"
definition PRIME32_5 :: uint32 where "PRIME32_5 = 374761393"
definition xxHash_SEED :: uint32 where "xxHash_SEED = 15953071"

definition sub_hash :: "uint32 \<Rightarrow> uint32 \<Rightarrow> uint32" where
  "sub_hash v read_value =
     (let v = v + read_value * PRIME32_2;
          v = rotl32 v 13;
          v = v * PRIME32_1
      in v)"

text \<open>
  \<open>xxHash::hash\<close> with its constant \<open>len = 4\<close>: the branch \<open>len >= 4\<close> is taken, the
  \<open>do ... while (index <= limit)\<close> body runs once (\<open>index = 4\<close>, \<open>limit = 0\<close> after it) and
  the loop \<open>while (index < len)\<close> runs no pass.
\<close>

definition xxhash_hash :: "uint32 list \<Rightarrow> uint32" where
  "xxhash_hash b =
     (let v1 = xxHash_SEED + PRIME32_1 + PRIME32_2;
          v2 = xxHash_SEED + PRIME32_2;
          v3 = xxHash_SEED + 0;
          v4 = xxHash_SEED - PRIME32_1;
          v1 = sub_hash v1 (b ! 0);
          v2 = sub_hash v2 (b ! 1);
          v3 = sub_hash v3 (b ! 2);
          v4 = sub_hash v4 (b ! 3);
          h32 = rotl32 v1 1 + rotl32 v2 7 + rotl32 v3 12 + rotl32 v4 18;
          h32 = h32 + 4 * 4;
          h32 = h32 XOR drop_bit 15 h32;
          h32 = h32 * PRIME32_2;
          h32 = h32 XOR drop_bit 13 h32;
          h32 = h32 * PRIME32_3;
          h32 = h32 XOR drop_bit 16 h32
      in h32)"

definition custom_hash :: "uint32 list \<Rightarrow> uint32" where
  "custom_hash b =
     ((15953071 * (b ! 0)) XOR (37953119 * (b ! 1)) XOR (73856093 * (b ! 2))
        XOR (93856897 * (b ! 3)))"

text \<open>
  \<open>Knuth::hash\<close> reads the buffer as two \<open>uint64_t\<close>; on a little-endian target the first
  is \<open>b[0] + 2^32 * b[1]\<close>. The product is taken on 64 bits, shifted, and cut to 32 bits
  by the return type.
\<close>

definition knuth_hash :: "uint32 list \<Rightarrow> uint32" where
  "knuth_hash b =
     (let b0 = (ucast (b ! 0) :: uint64) OR push_bit 32 (ucast (b ! 1));
          b1 = (ucast (b ! 2) :: uint64) OR push_bit 32 (ucast (b ! 3))
      in ucast (drop_bit 8 ((b0 XOR b1) * 2654435761)))"

datatype HashFunction = Murmur | xxHash | Custom | Knuth

fun hash :: "HashFunction \<Rightarrow> uint32 list \<Rightarrow> uint32" where
  "hash Murmur b = murmur_hash b"
| "hash xxHash b = xxhash_hash b"
| "hash Custom b = custom_hash b"
| "hash Knuth b = knuth_hash b"

section \<open>Reduction strategies (namespace shash::reduction)\<close>

datatype ReduceFunction = Mod | FastRange | Identity

text \<open>\<open>hash % buckets\<close> with \<open>buckets = 0\<close> is undefined in the source: \<open>None\<close>.\<close>

fun reduce :: "ReduceFunction \<Rightarrow> uint32 \<Rightarrow> uint32 \<Rightarrow> uint32 option" where
  "reduce Mod h buckets = (if buckets = 0 then None else Some (h mod buckets))"
| "reduce FastRange h buckets =
     Some (ucast (drop_bit 32 ((ucast h :: uint64) * (ucast buckets :: uint64))))"
| "reduce Identity h buckets = Some h"

section \<open>The table (class SpatialHash)\<close>

text \<open>
  The template arguments of the class: the two strategies and the probe budget.
\<close>

record template_args =
  HashFn :: HashFunction
  ReduceFn :: ReduceFunction
  REHASH_ROUNDS :: nat

text \<open>
  \<open>int\<close> cell coordinates and salts are mathematical integers (signed overflow is
  undefined in the source); they enter the key buffer through the conversion to
  \<open>uint32_t\<close>. \<open>real\<close> (\<open>double\<close>) is modelled by the HOL reals.
\<close>

record 'v HashBucket =
  bucket_x :: int
  bucket_y :: int
  last_claimed :: uint32
  data :: "'v list"

record 'v SpatialHash =
  inv_cell_size :: real
  table_size :: uint32
  current_round :: uint32
  hash_table :: "'v HashBucket list"

text \<open>\<open>HashBucket()\<close>: zeroed coordinates, \<open>last_claimed = -1\<close>, no data.\<close>

definition HashBucket_new :: "'v HashBucket" where
  "HashBucket_new = \<lparr>bucket_x = 0, bucket_y = 0, last_claimed = - 1, data = []\<rparr>"

text \<open>\<open>std::vector::resize(n, d)\<close>: keeps the first \<open>n\<close> elements, pads with copies of \<open>d\<close>.\<close>

definition resize :: "nat \<Rightarrow> 'a \<Rightarrow> 'a list \<Rightarrow> 'a list" where
  "resize n d xs = take n xs @ replicate (n - length xs) d"

definition SpatialHash_new :: "real \<Rightarrow> uint32 \<Rightarrow> 'v SpatialHash" where
  "SpatialHash_new cell_size tsize =
     \<lparr>inv_cell_size = 1 / cell_size, table_size = tsize, current_round = 0,
      hash_table = resize (unat tsize) HashBucket_new []\<rparr>"

definition reset :: "'v SpatialHash \<Rightarrow> real \<Rightarrow> uint32 \<Rightarrow> 'v SpatialHash" where
  "reset s cell_size tsize =
     (let s = s\<lparr>inv_cell_size := 1 / cell_size\<rparr>;
          s = s\<lparr>current_round := current_round s + 1\<rparr>
      in if table_size s \<noteq> tsize
         then s\<lparr>table_size := tsize,
                hash_table := resize (unat tsize) HashBucket_new (hash_table s)\<rparr>
         else s)"

definition cell :: "'v SpatialHash \<Rightarrow> real \<Rightarrow> int" where
  "cell s coordinate = \<lfloor>coordinate * inv_cell_size s\<rfloor>"

subsection \<open>The claim resolver\<close>

text \<open>
  The body of the \<open>for\<close> loop of \<open>get_bucket\<close> at counter \<open>i\<close>, with \<open>buf3\<close> the value of
  \<open>buf[3]\<close> on entry. The returned bucket pointer is its index in \<open>_hash_table\<close>; an
  index outside the vector (undefined in the source) is \<open>None\<close>.
\<close>

function get_bucket_loop ::
  "template_args \<Rightarrow> 'v SpatialHash \<Rightarrow> int \<Rightarrow> int \<Rightarrow> int \<Rightarrow> nat \<Rightarrow> uint32
     \<Rightarrow> ('v SpatialHash \<times> nat) option" where
  "get_bucket_loop P s x y salt i buf3 =
     (let buf3' = buf3 + 1 in
      case reduce (ReduceFn P)
             (hash (HashFn P) [word_of_int x, word_of_int y, word_of_int salt, buf3'])
             (table_size s) of
        None \<Rightarrow> None
      | Some r \<Rightarrow>
          let idx = unat r in
          if length (hash_table s) \<le> idx then None
          else
            let bucket = hash_table s ! idx in
            if last_claimed bucket \<noteq> current_round s then
              Some (s\<lparr>hash_table := (hash_table s)
                      [idx := bucket\<lparr>last_claimed := current_round s, data := [],
                                      bucket_x := x, bucket_y := y\<rparr>]\<rparr>, idx)
            else if bucket_x bucket = x \<and> bucket_y bucket = y then Some (s, idx)
            else if i + 1 \<le> REHASH_ROUNDS P
              then get_bucket_loop P s x y salt (i + 1) buf3'
              else Some (s, idx))"
  by pat_completeness auto
termination
  by (relation "measure (\<lambda>(P, s, x, y, salt, i, buf3). REHASH_ROUNDS P + 1 - i)") auto

definition get_bucket ::
  "template_args \<Rightarrow> 'v SpatialHash \<Rightarrow> int \<Rightarrow> int \<Rightarrow> int \<Rightarrow> ('v SpatialHash \<times> nat) option" where
  "get_bucket P s x y salt = get_bucket_loop P s x y salt 0 (current_round s)"

subsection \<open>Insertion\<close>

definition insert_at_cell ::
  "template_args \<Rightarrow> 'v SpatialHash \<Rightarrow> int \<Rightarrow> int \<Rightarrow> 'v \<Rightarrow> int \<Rightarrow> 'v SpatialHash option" where
  "insert_at_cell P s x y v salt =
     (case get_bucket P s x y salt of
        None \<Rightarrow> None
      | Some (s', b) \<Rightarrow>
          Some (s'\<lparr>hash_table := (hash_table s')
                  [b := (hash_table s' ! b)\<lparr>data := data (hash_table s' ! b) @ [v]\<rparr>]\<rparr>))"

definition insert_at_point ::
  "template_args \<Rightarrow> 'v SpatialHash \<Rightarrow> real \<Rightarrow> real \<Rightarrow> 'v \<Rightarrow> int \<Rightarrow> 'v SpatialHash option" where
  "insert_at_point P s px py v salt =
     (let cell_x = cell s px; cell_y = cell s py
      in insert_at_cell P s cell_x cell_y v salt)"

function insert_aabb_j ::
  "template_args \<Rightarrow> 'v SpatialHash \<Rightarrow> int \<Rightarrow> int \<Rightarrow> int \<Rightarrow> 'v \<Rightarrow> int \<Rightarrow> 'v SpatialHash option" where
  "insert_aabb_j P s i j bottom_right_y_cell v salt =
     (if j \<le> bottom_right_y_cell then
        (case insert_at_cell P s i j v salt of
           None \<Rightarrow> None
         | Some s' \<Rightarrow> insert_aabb_j P s' i (j + 1) bottom_right_y_cell v salt)
      else Some s)"
  by pat_completeness auto
termination
  by (relation "measure (\<lambda>(P, s, i, j, b, v, salt). nat (b + 1 - j))") auto

function insert_aabb_i ::
  "template_args \<Rightarrow> 'v SpatialHash \<Rightarrow> int \<Rightarrow> int \<Rightarrow> int \<Rightarrow> int \<Rightarrow> 'v \<Rightarrow> int
     \<Rightarrow> 'v SpatialHash option" where
  "insert_aabb_i P s i bottom_right_x_cell top_left_y_cell bottom_right_y_cell v salt =
     (if i \<le> bottom_right_x_cell then
        (case insert_aabb_j P s i top_left_y_cell bottom_right_y_cell v salt of
           None \<Rightarrow> None
         | Some s' \<Rightarrow>
             insert_aabb_i P s' (i + 1) bottom_right_x_cell top_left_y_cell
               bottom_right_y_cell v salt)
      else Some s)"
  by pat_completeness auto
termination
  by (relation "measure (\<lambda>(P, s, i, b, t, c, v, salt). nat (b + 1 - i))") auto

definition insert_at_aabb ::
  "template_args \<Rightarrow> 'v SpatialHash \<Rightarrow> real \<Rightarrow> real \<Rightarrow> real \<Rightarrow> real \<Rightarrow> 'v \<Rightarrow> int
     \<Rightarrow> 'v SpatialHash option" where
  "insert_at_aabb P s top_left_x top_left_y bottom_right_x bottom_right_y v salt =
     (let top_left_x_cell = cell s top_left_x;
          top_left_y_cell = cell s top_left_y;
          bottom_right_x_cell = cell s bottom_right_x;
          bottom_right_y_cell = cell s bottom_right_y
      in insert_aabb_i P s top_left_x_cell bottom_right_x_cell top_left_y_cell
           bottom_right_y_cell v salt)"

text \<open>
  The \<open>while (true)\<close> loop of \<open>insert_at_segment\<close>. It has no bound of its own, so it
  is a partial function: \<open>None\<close> is also the value of a run that never leaves the loop.
\<close>

partial_function (option) insert_segment_loop ::
  "template_args \<Rightarrow> 'v SpatialHash \<Rightarrow> 'v \<Rightarrow> int \<Rightarrow> int \<Rightarrow> int \<Rightarrow> int \<Rightarrow> int \<Rightarrow> int \<Rightarrow> int
     \<Rightarrow> int \<Rightarrow> int \<Rightarrow> int \<Rightarrow> 'v SpatialHash option" where
  "insert_segment_loop P s v salt x0 y0 x1 y1 dx dy sx sy err =
     Option.bind (insert_at_cell P s x0 y0 v salt) (\<lambda>s'.
       if x0 = x1 \<and> y0 = y1 then Some s'
       else
         let e2 = 2 * err in
         if e2 > dy then insert_segment_loop P s' v salt (x0 + sx) y0 x1 y1 dx dy sx sy (err + dy)
         else if e2 < dx then
           insert_segment_loop P s' v salt x0 (y0 + sy) x1 y1 dx dy sx sy (err + dx)
         else insert_segment_loop P s' v salt x0 y0 x1 y1 dx dy sx sy err)"

definition insert_at_segment ::
  "template_args \<Rightarrow> 'v SpatialHash \<Rightarrow> real \<Rightarrow> real \<Rightarrow> real \<Rightarrow> real \<Rightarrow> 'v \<Rightarrow> int
     \<Rightarrow> 'v SpatialHash option" where
  "insert_at_segment P s start_x_coord start_y_coord end_x_coord end_y_coord v salt =
     (let x0 = cell s start_x_coord;
          y0 = cell s start_y_coord;
          x1 = cell s end_x_coord;
          y1 = cell s end_y_coord;
          dx = \<bar>x1 - x0\<bar>;
          dy = - \<bar>y1 - y0\<bar>;
          sx = (if x0 < x1 then 1 else - 1);
          sy = (if y0 < y1 then 1 else - 1);
          err = dx + dy
      in insert_segment_loop P s v salt x0 y0 x1 y1 dx dy sx sy err)"

subsection \<open>Queries\<close>

text \<open>
  A query takes the caller's \<open>result\<close> vector and returns it updated, next to the
  table: \<open>result.insert(result.begin(), first, last)\<close> puts the bucket's data in front.
\<close>

definition query_at_cell ::
  "template_args \<Rightarrow> 'v SpatialHash \<Rightarrow> 'v list \<Rightarrow> int \<Rightarrow> int \<Rightarrow> int
     \<Rightarrow> ('v SpatialHash \<times> 'v list) option" where
  "query_at_cell P s result x y salt =
     (case get_bucket P s x y salt of
        None \<Rightarrow> None
      | Some (s', b) \<Rightarrow> Some (s', data (hash_table s' ! b) @ result))"

definition query_at_point ::
  "template_args \<Rightarrow> 'v SpatialHash \<Rightarrow> 'v list \<Rightarrow> real \<Rightarrow> real \<Rightarrow> int
     \<Rightarrow> ('v SpatialHash \<times> 'v list) option" where
  "query_at_point P s result px py salt =
     (let cell_x = cell s px; cell_y = cell s py
      in query_at_cell P s result cell_x cell_y salt)"

function query_aabb_j ::
  "template_args \<Rightarrow> 'v SpatialHash \<Rightarrow> 'v list \<Rightarrow> int \<Rightarrow> int \<Rightarrow> int \<Rightarrow> int
     \<Rightarrow> ('v SpatialHash \<times> 'v list) option" where
  "query_aabb_j P s result i j bottom_right_y_cell salt =
     (if j \<le> bottom_right_y_cell then
        (case query_at_cell P s result i j salt of
           None \<Rightarrow> None
         | Some (s', result') \<Rightarrow> query_aabb_j P s' result' i (j + 1) bottom_right_y_cell salt)
      else Some (s, result))"
  by pat_completeness auto
termination
  by (relation "measure (\<lambda>(P, s, r, i, j, b, salt). nat (b + 1 - j))") auto

function query_aabb_i ::
  "template_args \<Rightarrow> 'v SpatialHash \<Rightarrow> 'v list \<Rightarrow> int \<Rightarrow> int \<Rightarrow> int \<Rightarrow> int \<Rightarrow> int
     \<Rightarrow> ('v SpatialHash \<times> 'v list) option" where
  "query_aabb_i P s result i bottom_right_x_cell top_left_y_cell bottom_right_y_cell salt =
     (if i \<le> bottom_right_x_cell then
        (case query_aabb_j P s result i top_left_y_cell bottom_right_y_cell salt of
           None \<Rightarrow> None
         | Some (s', result') \<Rightarrow>
             query_aabb_i P s' result' (i + 1) bottom_right_x_cell top_left_y_cell
               bottom_right_y_cell salt)
      else Some (s, result))"
  by pat_completeness auto
termination
  by (relation "measure (\<lambda>(P, s, r, i, b, t, c, salt). nat (b + 1 - i))") auto

definition query_at_aabb ::
  "template_args \<Rightarrow> 'v SpatialHash \<Rightarrow> 'v list \<Rightarrow> real \<Rightarrow> real \<Rightarrow> real \<Rightarrow> real \<Rightarrow> int
     \<Rightarrow> ('v SpatialHash \<times> 'v list) option" where
  "query_at_aabb P s result top_left_x top_left_y bottom_right_x bottom_right_y salt =
     (let top_left_x_cell = cell s top_left_x;
          top_left_y_cell = cell s top_left_y;
          bottom_right_x_cell = cell s bottom_right_x;
          bottom_right_y_cell = cell s bottom_right_y
      in query_aabb_i P s result top_left_x_cell bottom_right_x_cell top_left_y_cell
           bottom_right_y_cell salt)"

partial_function (option) query_segment_loop ::
  "template_args \<Rightarrow> 'v SpatialHash \<Rightarrow> 'v list \<Rightarrow> int \<Rightarrow> int \<Rightarrow> int \<Rightarrow> int \<Rightarrow> int \<Rightarrow> int \<Rightarrow> int
     \<Rightarrow> int \<Rightarrow> int \<Rightarrow> int \<Rightarrow> ('v SpatialHash \<times> 'v list) option" where
  "query_segment_loop P s result salt x0 y0 x1 y1 dx dy sx sy err =
     Option.bind (query_at_cell P s result x0 y0 salt) (\<lambda>(s', result').
       if x0 = x1 \<and> y0 = y1 then Some (s', result')
       else
         let e2 = 2 * err in
         if e2 > dy then
           query_segment_loop P s' result' salt (x0 + sx) y0 x1 y1 dx dy sx sy (err + dy)
         else if e2 < dx then
           query_segment_loop P s' result' salt x0 (y0 + sy) x1 y1 dx dy sx sy (err + dx)
         else query_segment_loop P s' result' salt x0 y0 x1 y1 dx dy sx sy err)"

definition query_at_segment ::
  "template_args \<Rightarrow> 'v SpatialHash \<Rightarrow> 'v list \<Rightarrow> real \<Rightarrow> real \<Rightarrow> real \<Rightarrow> real \<Rightarrow> int
     \<Rightarrow> ('v SpatialHash \<times> 'v list) option" where
  "query_at_segment P s result start_x_coord start_y_coord end_x_coord end_y_coord salt =
     (let x0 = cell s start_x_coord;
          y0 = cell s start_y_coord;
          x1 = cell s end_x_coord;
          y1 = cell s end_y_coord;
          dx = \<bar>x1 - x0\<bar>;
          dy = \<bar>y1 - y0\<bar>;
          sx = (if x0 < x1 then 1 else - 1);
          sy = (if y0 < y1 then 1 else - 1);
          err = dx + dy
      in query_segment_loop P s result salt x0 y0 x1 y1 dx dy sx sy err)"

section \<open>Notions used to state the properties\<close>

text \<open>
  The index inspected by probe \<open>i\<close> (counted from 0) of \<open>get_bucket\<close>: the loop has
  added \<open>i + 1\<close> to \<open>buf[3] = _current_round\<close> when it hashes.
\<close>

definition probe_seed :: "'v SpatialHash \<Rightarrow> nat \<Rightarrow> uint32" where
  "probe_seed s i = current_round s + 1 + word_of_nat i"

definition probe_index ::
  "template_args \<Rightarrow> 'v SpatialHash \<Rightarrow> int \<Rightarrow> int \<Rightarrow> int \<Rightarrow> nat \<Rightarrow> nat option" where
  "probe_index P s x y salt i =
     (case reduce (ReduceFn P)
             (hash (HashFn P) [word_of_int x, word_of_int y, word_of_int salt, probe_seed s i])
             (table_size s) of
        None \<Rightarrow> None
      | Some r \<Rightarrow> if unat r < length (hash_table s) then Some (unat r) else None)"

text \<open>A bucket claimed in the current round by a cell with other coordinates.\<close>

definition foreign :: "'v SpatialHash \<Rightarrow> int \<Rightarrow> int \<Rightarrow> 'v HashBucket \<Rightarrow> bool" where
  "foreign s x y b \<longleftrightarrow>
     last_claimed b = current_round s \<and> \<not> (bucket_x b = x \<and> bucket_y b = y)"

definition foreign_probe ::
  "template_args \<Rightarrow> 'v SpatialHash \<Rightarrow> int \<Rightarrow> int \<Rightarrow> int \<Rightarrow> nat \<Rightarrow> bool" where
  "foreign_probe P s x y salt i =
     (case probe_index P s x y salt i of
        None \<Rightarrow> False
      | Some p \<Rightarrow> foreign s x y (hash_table s ! p))"

text \<open>The table after bucket \<open>p\<close> has been claimed for the cell \<open>(x, y)\<close>.\<close>

definition claimed :: "'v SpatialHash \<Rightarrow> nat \<Rightarrow> int \<Rightarrow> int \<Rightarrow> 'v SpatialHash" where
  "claimed s p x y =
     s\<lparr>hash_table := (hash_table s)
         [p := \<lparr>bucket_x = x, bucket_y = y, last_claimed = current_round s, data = []\<rparr>]\<rparr>"

text \<open>
  Tables on which every probe index is inside the vector: a reduction into
  \<open>[0, table_size)\<close>, at least one bucket, and the vector as long as \<open>_table_size\<close> says.
\<close>

definition table_ok :: "template_args \<Rightarrow> 'v SpatialHash \<Rightarrow> bool" where
  "table_ok P s \<longleftrightarrow>
     ReduceFn P \<noteq> Identity \<and> table_size s \<noteq> 0 \<and> length (hash_table s) = unat (table_size s)"

text \<open>
  Stamps of a table whose round counter has not wrapped: every bucket is unclaimed
  (\<open>-1\<close>) or was claimed in a round up to the current one.
\<close>

definition stamps_ok :: "'v SpatialHash \<Rightarrow> bool" where
  "stamps_ok s \<longleftrightarrow>
     list_all (\<lambda>b. last_claimed b = - 1 \<or> last_claimed b \<le> current_round s) (hash_table s)"

text \<open>
  What a run of cell queries finds: \<open>query_cells\<close> resolves the cells of a list in
  order, threading the table as \<open>get_bucket\<close> returns it, and lists the data of the
  bucket each cell resolves to. \<open>aabb_cells\<close> are the cells of a box in the order of the
  two nested loops; \<open>flat_cells\<close> are the cells of a row from \<open>x0\<close> to \<open>x1\<close>.
\<close>

fun query_cells ::
  "template_args \<Rightarrow> 'v SpatialHash \<Rightarrow> int \<Rightarrow> (int \<times> int) list
     \<Rightarrow> ('v SpatialHash \<times> 'v list list) option" where
  "query_cells P s salt [] = Some (s, [])"
| "query_cells P s salt ((x, y) # cs) =
     (case get_bucket P s x y salt of
        None \<Rightarrow> None
      | Some (s', b) \<Rightarrow>
          (case query_cells P s' salt cs of
             None \<Rightarrow> None
           | Some (t, ds) \<Rightarrow> Some (t, data (hash_table s' ! b) # ds)))"



section \<open>Example tables\<close>

text \<open>The default template arguments of the class, and two small tables in round 0.\<close>

definition default_args :: template_args where
  "default_args = \<lparr>HashFn = Murmur, ReduceFn = FastRange, REHASH_ROUNDS = 5\<rparr>"

definition table4 :: "nat SpatialHash" where
  "table4 = \<lparr>inv_cell_size = 1, table_size = 4, current_round = 0,
     hash_table = [HashBucket_new,
                   \<lparr>bucket_x = 5, bucket_y = 5, last_claimed = 0, data = [42]\<rparr>,
                   HashBucket_new, HashBucket_new]\<rparr>"

definition table1 :: "nat SpatialHash" where
  "table1 = \<lparr>inv_cell_size = 1, table_size = 1, current_round = 0,
     hash_table = [\<lparr>bucket_x = 5, bucket_y = 5, last_claimed = 0, data = [42]\<rparr>]\<rparr>"

text \<open>
  \<open>later_in_round s t\<close>: the table \<open>t\<close> is in the same round and of the same size as
  \<open>s\<close>, and every bucket claimed in that round in \<open>s\<close> is still claimed in \<open>t\<close>, by the
  same coordinates, with at least the values it held.
\<close>

definition later_in_round :: "'v SpatialHash \<Rightarrow> 'v SpatialHash \<Rightarrow> bool" where
  "later_in_round s t \<longleftrightarrow>
     current_round t = current_round s \<and> table_size t = table_size s \<and>
     list_all2
       (\<lambda>a b. last_claimed a = current_round s \<longrightarrow>
          last_claimed b = current_round s \<and> bucket_x b = bucket_x a \<and>
          bucket_y b = bucket_y a \<and> set (data a) \<subseteq> set (data b))
       (hash_table s) (hash_table t)"

text \<open>A table of 16 buckets in round 0 after \<open>insert_at_cell(0, 0, 7, salt = 0)\<close>.\<close>

definition table16 :: "nat SpatialHash" where
  "table16 = \<lparr>inv_cell_size = 1, table_size = 16, current_round = 0,
     hash_table = (replicate 16 HashBucket_new)
       [5 := \<lparr>bucket_x = 0, bucket_y = 0, last_claimed = 0, data = [7]\<rparr>]\<rparr>"

text \<open>
  A table whose round counter stands at its last value, with a bucket claimed in
  round 0 and never probed since.
\<close>

definition table_wrapped :: "nat SpatialHash" where
  "table_wrapped = \<lparr>inv_cell_size = 1, table_size = 1, current_round = 0xFFFFFFFF,
     hash_table = [\<lparr>bucket_x = 5, bucket_y = 5, last_claimed = 0, data = [42]\<rparr>]\<rparr>"

text \<open>
  The table of 16 buckets in round 0 after \<open>insert_at_segment(0, 0, 1, 1, 7, salt = 0)\<close>:
  the cells \<open>(0, 0)\<close>, \<open>(1, 0)\<close> and \<open>(1, 1)\<close> hold the value.
\<close>

definition table_diag :: "nat SpatialHash" where
  "table_diag = \<lparr>inv_cell_size = 1, table_size = 16, current_round = 0,
     hash_table = (replicate 16 HashBucket_new)
       [5 := \<lparr>bucket_x = 0, bucket_y = 0, last_claimed = 0, data = [7]\<rparr>,
        4 := \<lparr>bucket_x = 1, bucket_y = 0, last_claimed = 0, data = [7]\<rparr>,
        13 := \<lparr>bucket_x = 1, bucket_y = 1, last_claimed = 0, data = [7]\<rparr>]\<rparr>"

text \<open>
  A table of 16 buckets in round 0 after \<open>insert_at_cell(0, 0, 7, salt = 0)\<close> and
  \<open>insert_at_cell(1, 0, 8, salt = 0)\<close>.
\<close>

definition table_pair :: "nat SpatialHash" where
  "table_pair = \<lparr>inv_cell_size = 1, table_size = 16, current_round = 0,
     hash_table = (replicate 16 HashBucket_new)
       [5 := \<lparr>bucket_x = 0, bucket_y = 0, last_claimed = 0, data = [7]\<rparr>,
        4 := \<lparr>bucket_x = 1, bucket_y = 0, last_claimed = 0, data = [8]\<rparr>]\<rparr>"

section \<open>A bit-level evaluator for the test scenario\<close>

text \<open>
  The scenario of the repository's test \<open>test_insert_query_aabb\<close> runs several hundred
  calls of \<open>get_bucket\<close> on a table of 1000 buckets. To evaluate it inside the logic, the
  32-bit words are mirrored by lists of bits (least significant first) and the bucket
  vector by a binary trie over the bits of the index. None of this is part of the
  embedding: the definitions of this section are proved to compute what the embedded
  functions compute, and are then run by rewriting.
\<close>

fun bv_val :: "bool list \<Rightarrow> nat" where
  "bv_val [] = 0"
| "bv_val (b # bs) = of_bool b + 2 * bv_val bs"


text \<open>
  \<open>addc xs ys c\<close>: the sum of \<open>xs\<close>, \<open>ys\<close> and the carry \<open>c\<close>, cut to the length of \<open>xs\<close>.
\<close>

fun addc :: "bool list \<Rightarrow> bool list \<Rightarrow> bool \<Rightarrow> bool list" where
  "addc [] ys c = []"
| "addc (False # xs) [] False = False # xs"
| "addc (True # xs) [] False = True # xs"
| "addc (False # xs) [] True = True # xs"
| "addc (True # xs) [] True = False # addc xs [] True"
| "addc (False # xs) (False # ys) False = False # addc xs ys False"
| "addc (False # xs) (False # ys) True = True # addc xs ys False"
| "addc (False # xs) (True # ys) False = True # addc xs ys False"
| "addc (False # xs) (True # ys) True = False # addc xs ys True"
| "addc (True # xs) (False # ys) False = True # addc xs ys False"
| "addc (True # xs) (False # ys) True = False # addc xs ys True"
| "addc (True # xs) (True # ys) False = False # addc xs ys True"
| "addc (True # xs) (True # ys) True = True # addc xs ys True"

fun xorb :: "bool list \<Rightarrow> bool list \<Rightarrow> bool list" where
  "xorb [] ys = []"
| "xorb (x # xs) [] = x # xs"
| "xorb (False # xs) (y # ys) = y # xorb xs ys"
| "xorb (True # xs) (False # ys) = True # xorb xs ys"
| "xorb (True # xs) (True # ys) = False # xorb xs ys"

text \<open>\<open>mulb cs xs\<close>: the product, cut to the length of \<open>cs\<close>.\<close>

fun mulb :: "bool list \<Rightarrow> bool list \<Rightarrow> bool list" where
  "mulb [] xs = []"
| "mulb (False # cs) xs = False # mulb cs xs"
| "mulb (True # cs) xs = addc (False # mulb cs xs) xs False"

text \<open>\<open>rot k\<close> on 32 bits is the rotation to the left by \<open>32 - k\<close>.\<close>

definition rot :: "nat \<Rightarrow> bool list \<Rightarrow> bool list" where
  "rot k xs = drop k xs @ take k xs"

definition times5 :: "bool list \<Rightarrow> bool list" where
  "times5 h = addc h (False # False # h) False"

text \<open>The bits of a number: \<open>n\<close> of them, and the 32 of a word.\<close>

fun bits_of :: "nat \<Rightarrow> nat \<Rightarrow> bool list" where
  "bits_of 0 k = []"
| "bits_of (Suc n) k = odd k # bits_of n (k div 2)"

definition bv_zero :: "bool list" where
  "bv_zero = replicate 32 False"

definition bits32 :: "nat \<Rightarrow> bool list" where
  "bits32 k = bits_of 32 k"

definition bv_c1 :: "bool list" where "bv_c1 = bits32 0xcc9e2d51"
definition bv_c2 :: "bool list" where "bv_c2 = bits32 0x1b873593"
definition bv_n :: "bool list" where "bv_n = bits32 0xe6546b64"
definition bv_f1 :: "bool list" where "bv_f1 = bits32 0x85ebca6b"
definition bv_f2 :: "bool list" where "bv_f2 = bits32 0xc2b2ae35"
definition bv_seed :: "bool list" where "bv_seed = bits32 15953071"
definition bv_sixteen :: "bool list" where "bv_sixteen = bits32 16"
definition bv_1000 :: "bool list" where "bv_1000 = bits_of 42 1000"

text \<open>\<open>Murmur::hash\<close> on bits, in stages: the part of a round that depends on the key
  word only (\<open>kmix_bv\<close>), the rest of the round (\<open>mix_bv\<close>), and \<open>fmix\<close>.\<close>

definition kmix_bv :: "bool list \<Rightarrow> bool list" where
  "kmix_bv bi = mulb bv_c2 (rot 17 (mulb bv_c1 bi))"

definition mix_bv :: "bool list \<Rightarrow> bool list \<Rightarrow> bool list" where
  "mix_bv h1 k1 = addc (times5 (rot 19 (xorb h1 k1))) bv_n False"

definition fmixC :: "bool list \<Rightarrow> bool list" where
  "fmixC h = xorb h (drop 16 h)"

definition fmixB :: "bool list \<Rightarrow> bool list" where
  "fmixB h = fmixC (mulb bv_f2 (xorb h (drop 13 h)))"

definition fmix_bv :: "bool list \<Rightarrow> bool list" where
  "fmix_bv h = fmixB (mulb bv_f1 (xorb h (drop 16 h)))"



text \<open>\<open>kmix_list ts w\<close>: the mixed key words \<open>w\<close>, \<open>w + 1\<close>, ..., one for each element of \<open>ts\<close>.\<close>

fun kmix_list :: "'a list \<Rightarrow> bool list \<Rightarrow> bool list list" where
  "kmix_list [] w = []"
| "kmix_list (t # ts) w = kmix_bv w # kmix_list ts (addc w [] True)"

definition kmix_tab :: "bool list list" where
  "kmix_tab = kmix_list bv_zero bv_zero"

text \<open>
  The bucket vector as a binary trie over the ten bits of the index (least significant
  first). A leaf holds the coordinates and the data of a bucket claimed in the current
  round; an unclaimed bucket has no leaf.
\<close>

datatype 'a trie = Empty | Tip 'a | Fork "'a trie" "'a trie"


fun tupdate :: "bool list \<Rightarrow> 'a \<Rightarrow> 'a trie \<Rightarrow> 'a trie" where
  "tupdate [] a t = Tip a"
| "tupdate (False # bs) a (Fork l r) = Fork (tupdate bs a l) r"
| "tupdate (True # bs) a (Fork l r) = Fork l (tupdate bs a r)"
| "tupdate (False # bs) a Empty = Fork (tupdate bs a Empty) Empty"
| "tupdate (True # bs) a Empty = Fork Empty (tupdate bs a Empty)"
| "tupdate (False # bs) a (Tip v) = Fork (tupdate bs a Empty) Empty"
| "tupdate (True # bs) a (Tip v) = Fork Empty (tupdate bs a Empty)"

text \<open>Tries whose leaves are all at depth \<open>n\<close>.\<close>

fun twf :: "nat \<Rightarrow> 'a trie \<Rightarrow> bool" where
  "twf n Empty = True"
| "twf 0 (Tip a) = True"
| "twf (Suc n) (Tip a) = False"
| "twf 0 (Fork l r) = False"
| "twf (Suc n) (Fork l r) = (twf n l \<and> twf n r)"




definition seedsA :: "bool list list" where
  "seedsA = take 11 (drop 1 kmix_tab)"





















section \<open>Reductions stay inside the table\<close>

lemma fastrange_lt:
  fixes h n :: uint32
  assumes "n \<noteq> 0"
  shows "(ucast (drop_bit 32 ((ucast h :: uint64) * (ucast n :: uint64))) :: uint32) < n"
proof -
  have hb: "unat h < 2 ^ 32" using unsigned_less [of h] by simp
  have nb: "unat n < 2 ^ 32" using unsigned_less [of n] by simp
  have npos: "0 < unat n" using assms by (simp add: unat_gt_0)
  have prod_lt: "unat h * unat n < 2 ^ 32 * unat n"
    using hb npos by simp
  have prod64: "unat h * unat n < 2 ^ 64"
  proof -
    have "unat h * unat n \<le> 4294967295 * 4294967295"
      using hb nb by (intro mult_le_mono) simp_all
    then show ?thesis by simp
  qed
  have c1: "unat (ucast h :: uint64) = unat h"
    using hb by (simp add: unsigned_ucast_eq take_bit_nat_eq_self)
  have c2: "unat (ucast n :: uint64) = unat n"
    using nb by (simp add: unsigned_ucast_eq take_bit_nat_eq_self)
  have u1: "unat ((ucast h :: uint64) * (ucast n :: uint64)) = unat h * unat n"
    using prod64 unat_mult_lem [of "ucast h :: uint64" "ucast n"] by (simp add: c1 c2)
  have u2: "unat (drop_bit 32 ((ucast h :: uint64) * (ucast n :: uint64))) = unat h * unat n div 2 ^ 32"
    by (simp only: unat_drop_bit_eq u1) (simp add: drop_bit_eq_div)
  have v: "unat h * unat n div 2 ^ 32 < unat n"
    using prod_lt by (simp add: less_mult_imp_div_less mult.commute)
  have v32: "unat h * unat n div 2 ^ 32 < 2 ^ 32"
    using v nb by linarith
  have u3: "unat (ucast (drop_bit 32 ((ucast h :: uint64) * (ucast n :: uint64))) :: uint32) = unat h * unat n div 2 ^ 32"
    using v32 by (simp add: unsigned_ucast_eq u2 take_bit_nat_eq_self)
  show ?thesis
    using v by (simp add: word_less_nat_alt u3)
qed

lemma reduce_in_range:
  "R \<noteq> Identity \<Longrightarrow> n \<noteq> 0 \<Longrightarrow> \<exists>r. reduce R h n = Some r \<and> r < n"
  by (cases R) (simp_all add: fastrange_lt word_mod_less_divisor word_neq_0_conv)

section \<open>The probe loop, one pass at a time\<close>

declare get_bucket_loop.simps [simp del]

lemma probe_index_lt: "probe_index P s x y salt i = Some p \<Longrightarrow> p < length (hash_table s)"
  by (auto simp: probe_index_def split: option.splits if_splits)

lemma probe_index_ok:
  assumes "table_ok P s"
  shows "\<exists>p. probe_index P s x y salt i = Some p"
proof -
  from assms have R: "ReduceFn P \<noteq> Identity" and n: "table_size s \<noteq> 0"
    and len: "length (hash_table s) = unat (table_size s)"
    by (simp_all add: table_ok_def)
  obtain r where r: "reduce (ReduceFn P)
      (hash (HashFn P) [word_of_int x, word_of_int y, word_of_int salt, probe_seed s i])
      (table_size s) = Some r" and lt: "r < table_size s"
    using reduce_in_range [OF R n] by blast
  from lt have "unat r < length (hash_table s)"
    by (simp add: len word_less_nat_alt)
  with r show ?thesis by (simp add: probe_index_def)
qed

lemma claim_updates:
  "(b :: 'v HashBucket)\<lparr>last_claimed := c, data := [], bucket_x := x, bucket_y := y\<rparr> =
     \<lparr>bucket_x = x, bucket_y = y, last_claimed = c, data = []\<rparr>"
  by (cases b) simp

lemma get_bucket_loop_step:
  "get_bucket_loop P s x y salt i (current_round s + word_of_nat i) =
     (case probe_index P s x y salt i of
        None \<Rightarrow> None
      | Some p \<Rightarrow>
          if last_claimed (hash_table s ! p) \<noteq> current_round s then Some (claimed s p x y, p)
          else if bucket_x (hash_table s ! p) = x \<and> bucket_y (hash_table s ! p) = y
            then Some (s, p)
          else if i + 1 \<le> REHASH_ROUNDS P
            then get_bucket_loop P s x y salt (i + 1) (current_round s + word_of_nat (i + 1))
          else Some (s, p))"
  apply (subst get_bucket_loop.simps)
  apply (simp add: probe_index_def probe_seed_def claimed_def claim_updates Let_def add.commute add.left_commute
      split: option.splits)
  done

lemma foreign_probeD:
  "foreign_probe P s x y salt i \<Longrightarrow>
     \<exists>p. probe_index P s x y salt i = Some p \<and> last_claimed (hash_table s ! p) = current_round s
        \<and> \<not> (bucket_x (hash_table s ! p) = x \<and> bucket_y (hash_table s ! p) = y)"
  by (auto simp: foreign_probe_def foreign_def split: option.splits)

lemma get_bucket_loop_foreign:
  assumes "foreign_probe P s x y salt i"
  shows "get_bucket_loop P s x y salt i (current_round s + word_of_nat i) =
     (if i + 1 \<le> REHASH_ROUNDS P
      then get_bucket_loop P s x y salt (i + 1) (current_round s + word_of_nat (i + 1))
      else Some (s, the (probe_index P s x y salt i)))"
  using foreign_probeD [OF assms] by (subst get_bucket_loop_step) auto

lemma get_bucket_loop_skip:
  assumes "i \<le> k" and "k \<le> REHASH_ROUNDS P"
    and "\<forall>j. i \<le> j \<and> j < k \<longrightarrow> foreign_probe P s x y salt j"
  shows "get_bucket_loop P s x y salt i (current_round s + word_of_nat i) =
         get_bucket_loop P s x y salt k (current_round s + word_of_nat k)"
  using assms
proof (induction rule: inc_induct)
  case base
  show ?case by simp
next
  case (step n)
  from step.prems step.hyps have f: "foreign_probe P s x y salt n" by simp
  from step.hyps step.prems have le: "n + 1 \<le> REHASH_ROUNDS P" by simp
  have "get_bucket_loop P s x y salt n (current_round s + word_of_nat n) =
        get_bucket_loop P s x y salt (n + 1) (current_round s + word_of_nat (n + 1))"
    using get_bucket_loop_foreign [OF f] le by simp
  also have "\<dots> = get_bucket_loop P s x y salt k (current_round s + word_of_nat k)"
    using step.IH step.prems by simp
  finally show ?case .
qed

lemma get_bucket_skip:
  assumes "k \<le> REHASH_ROUNDS P" and "\<forall>j<k. foreign_probe P s x y salt j"
  shows "get_bucket P s x y salt =
         get_bucket_loop P s x y salt k (current_round s + word_of_nat k)"
  using get_bucket_loop_skip [of 0 k P s x y salt] assms by (simp add: get_bucket_def)

lemma get_bucket_loop_probed:
  "get_bucket_loop P s x y salt i (current_round s + word_of_nat i) = Some (s', b) \<Longrightarrow>
     \<exists>j. i \<le> j \<and> j \<le> max i (REHASH_ROUNDS P) \<and> probe_index P s x y salt j = Some b"
proof (induction "REHASH_ROUNDS P - i" arbitrary: i)
  case 0
  then show ?case
    by (subst (asm) get_bucket_loop_step) (auto split: option.splits if_splits)
next
  case (Suc n)
  from Suc.hyps(2) have le: "i + 1 \<le> REHASH_ROUNDS P" and n: "n = REHASH_ROUNDS P - (i + 1)"
    by simp_all
  show ?case
  proof (cases "foreign_probe P s x y salt i")
    case True
    with Suc.prems le
    have "get_bucket_loop P s x y salt (i + 1) (current_round s + word_of_nat (i + 1)) = Some (s', b)"
      by (simp add: get_bucket_loop_foreign)
    from Suc.hyps(1) [OF n this] obtain j
      where "i + 1 \<le> j" "j \<le> max (i + 1) (REHASH_ROUNDS P)" "probe_index P s x y salt j = Some b"
      by blast
    with le show ?thesis by (intro exI [of _ j]) auto
  next
    case False
    with Suc.prems have "probe_index P s x y salt i = Some b"
      by (subst (asm) get_bucket_loop_step)
        (auto simp: foreign_probe_def foreign_def split: option.splits if_splits)
    then show ?thesis by (intro exI [of _ i]) auto
  qed
qed

lemma probe_seed_inj:
  assumes "i < 2 ^ 32" "j < 2 ^ 32" "probe_seed s i = probe_seed s j"
  shows "i = j"
proof -
  from assms(3) have "(word_of_nat i :: uint32) = word_of_nat j"
    by (simp add: probe_seed_def)
  then have "unat (word_of_nat i :: uint32) = unat (word_of_nat j :: uint32)" by simp
  with assms(1,2) show ?thesis by (simp add: unat_of_nat)
qed

section \<open>The claim resolver\<close>

text \<open>
  C1. \<open>get_bucket\<close> inspects at most \<open>REHASH_ROUNDS + 1\<close> buckets; probe \<open>i\<close> hashes
  the key \<open>(x, y, salt, _current_round + 1 + i)\<close>, the seeds of one call being pairwise
  distinct, and reduces the hash to an index. Probes that find a bucket claimed in the
  current round by other coordinates are passed over. The first probe \<open>k\<close> that finds
  a bucket stamped with another round claims it (stamp, coordinates, emptied data) and
  returns it; the first that finds the coordinates \<open>(x, y)\<close> returns the bucket and
  leaves the table as it is.
\<close>

theorem get_bucket_probing:
  assumes "k \<le> REHASH_ROUNDS P"
    and "\<forall>j<k. foreign_probe P s x y salt j"
    and "probe_index P s x y salt k = Some p"
  shows "(last_claimed (hash_table s ! p) \<noteq> current_round s \<longrightarrow>
            get_bucket P s x y salt = Some (claimed s p x y, p))
       \<and> (last_claimed (hash_table s ! p) = current_round s
            \<and> bucket_x (hash_table s ! p) = x \<and> bucket_y (hash_table s ! p) = y \<longrightarrow>
            get_bucket P s x y salt = Some (s, p))
       \<and> (\<forall>s' b. get_bucket P s x y salt = Some (s', b) \<longrightarrow>
            (\<exists>i\<le>REHASH_ROUNDS P. probe_index P s x y salt i = Some b))
       \<and> (REHASH_ROUNDS P < 2 ^ 32 \<longrightarrow> inj_on (probe_seed s) {..REHASH_ROUNDS P})"
proof (intro conjI impI allI)
  assume "last_claimed (hash_table s ! p) \<noteq> current_round s"
  with assms show "get_bucket P s x y salt = Some (claimed s p x y, p)"
    by (simp add: get_bucket_skip get_bucket_loop_step)
next
  assume "last_claimed (hash_table s ! p) = current_round s
            \<and> bucket_x (hash_table s ! p) = x \<and> bucket_y (hash_table s ! p) = y"
  with assms show "get_bucket P s x y salt = Some (s, p)"
    by (simp add: get_bucket_skip get_bucket_loop_step)
next
  fix s' b
  assume "get_bucket P s x y salt = Some (s', b)"
  then show "\<exists>i\<le>REHASH_ROUNDS P. probe_index P s x y salt i = Some b"
    using get_bucket_loop_probed [of P s x y salt 0 s' b] by (auto simp: get_bucket_def)
next
  assume "REHASH_ROUNDS P < 2 ^ 32"
  then show "inj_on (probe_seed s) {..REHASH_ROUNDS P}"
    by (intro inj_onI probe_seed_inj [of _ _ s]) auto
qed

theorem get_bucket_probing_witness:
  "foreign_probe default_args table4 0 0 0 0
   \<and> probe_index default_args table4 0 0 0 1 = Some 3
   \<and> get_bucket default_args table4 0 0 0 = Some (claimed table4 3 0 0, 3)"
proof -
  have f: "foreign_probe default_args table4 0 0 0 0" by code_simp
  have k: "1 \<le> REHASH_ROUNDS default_args" by (simp add: default_args_def)
  have a: "\<forall>j<1. foreign_probe default_args table4 0 0 0 j" using f by simp
  have p: "probe_index default_args table4 0 0 0 1 = Some 3" by code_simp
  have st: "last_claimed (hash_table table4 ! 3) \<noteq> current_round table4"
    by (simp add: table4_def HashBucket_new_def)
  from get_bucket_probing [OF k a p] st f p show ?thesis by blast
qed

text \<open>
  C2. When all \<open>REHASH_ROUNDS + 1\<close> probes find buckets claimed in the current round
  by other coordinates, \<open>get_bucket\<close> returns the bucket of the last probe and the
  table is the one it was given: no stamp, coordinate or data is written, and the call
  does not fail.
\<close>

theorem get_bucket_exhausted:
  assumes "\<forall>j\<le>REHASH_ROUNDS P. foreign_probe P s x y salt j"
    and "probe_index P s x y salt (REHASH_ROUNDS P) = Some p"
  shows "get_bucket P s x y salt = Some (s, p)"
proof -
  from assms(1) have "\<forall>j<REHASH_ROUNDS P. foreign_probe P s x y salt j" by simp
  then have "get_bucket P s x y salt =
      get_bucket_loop P s x y salt (REHASH_ROUNDS P)
        (current_round s + word_of_nat (REHASH_ROUNDS P))"
    by (simp add: get_bucket_skip)
  also have "\<dots> = Some (s, p)"
    using assms by (simp add: get_bucket_loop_foreign)
  finally show ?thesis .
qed

theorem get_bucket_exhausted_witness:
  "list_all (foreign_probe default_args table1 0 0 0) [0..<6]
   \<and> probe_index default_args table1 0 0 0 5 = Some 0
   \<and> get_bucket default_args table1 0 0 0 = Some (table1, 0)"
proof -
  have f: "list_all (foreign_probe default_args table1 0 0 0) [0..<6]" by code_simp
  have a: "\<forall>j\<le>REHASH_ROUNDS default_args. foreign_probe default_args table1 0 0 0 j"
  proof (intro allI impI)
    fix j assume "j \<le> REHASH_ROUNDS default_args"
    then have "j \<in> set [0..<6]" by (simp add: default_args_def)
    with f show "foreign_probe default_args table1 0 0 0 j"
      unfolding list_all_iff by blast
  qed
  have p: "probe_index default_args table1 0 0 0 (REHASH_ROUNDS default_args) = Some 0"
    by code_simp
  have p': "probe_index default_args table1 0 0 0 5 = Some 0"
    using p by (simp add: default_args_def)
  from get_bucket_exhausted [OF a p] f p' show ?thesis by blast
qed

section \<open>Tables later in the same round\<close>

lemma later_in_round_refl: "later_in_round s s"
  by (simp add: later_in_round_def list_all2_same)

lemma later_in_round_trans:
  assumes "later_in_round s t" and "later_in_round t u"
  shows "later_in_round s u"
proof -
  from assms have cr: "current_round t = current_round s" "current_round u = current_round s"
    and ts: "table_size u = table_size s"
    by (simp_all add: later_in_round_def)
  let ?R = "\<lambda>c a b. last_claimed a = c \<longrightarrow>
          last_claimed b = c \<and> bucket_x b = bucket_x a \<and>
          bucket_y b = bucket_y a \<and> set (data a) \<subseteq> set (data b)"
  from assms cr have 1: "list_all2 (?R (current_round s)) (hash_table s) (hash_table t)"
    and 2: "list_all2 (?R (current_round s)) (hash_table t) (hash_table u)"
    by (simp_all add: later_in_round_def)
  have "list_all2 (?R (current_round s)) (hash_table s) (hash_table u)"
    by (rule list_all2_trans [OF _ 1 2]) auto
  with cr ts show ?thesis by (simp add: later_in_round_def)
qed

lemma later_in_roundD:
  assumes "later_in_round s t"
  shows "current_round t = current_round s" "table_size t = table_size s"
    "length (hash_table t) = length (hash_table s)"
  using assms by (auto simp: later_in_round_def dest: list_all2_lengthD)

lemma later_in_round_bucket:
  assumes "later_in_round s t" "p < length (hash_table s)"
    "last_claimed (hash_table s ! p) = current_round s"
  shows "last_claimed (hash_table t ! p) = current_round s
       \<and> bucket_x (hash_table t ! p) = bucket_x (hash_table s ! p)
       \<and> bucket_y (hash_table t ! p) = bucket_y (hash_table s ! p)
       \<and> set (data (hash_table s ! p)) \<subseteq> set (data (hash_table t ! p))"
  using assms by (auto simp: later_in_round_def list_all2_conv_all_nth)

lemma later_in_round_update:
  assumes "p < length (hash_table s)"
    and "last_claimed (hash_table s ! p) = current_round s \<Longrightarrow>
           last_claimed b = current_round s \<and> bucket_x b = bucket_x (hash_table s ! p)
           \<and> bucket_y b = bucket_y (hash_table s ! p)
           \<and> set (data (hash_table s ! p)) \<subseteq> set (data b)"
  shows "later_in_round s (s\<lparr>hash_table := (hash_table s)[p := b]\<rparr>)"
  using assms by (auto simp: later_in_round_def list_all2_conv_all_nth nth_list_update)

lemma probe_index_later:
  assumes "later_in_round s t"
  shows "probe_index P t x y salt i = probe_index P s x y salt i"
  using later_in_roundD [OF assms]
  by (simp add: probe_index_def probe_seed_def split: option.splits)

text \<open>What one call of the loop returns: the table untouched, or one stale bucket claimed.\<close>

lemma get_bucket_loop_result:
  "get_bucket_loop P s x y salt i (current_round s + word_of_nat i) = Some (s', b) \<Longrightarrow>
     b < length (hash_table s) \<and>
     (s' = s \<and> last_claimed (hash_table s ! b) = current_round s
      \<or> s' = claimed s b x y \<and> last_claimed (hash_table s ! b) \<noteq> current_round s)"
proof (induction "REHASH_ROUNDS P - i" arbitrary: i)
  case 0
  then show ?case
    by (subst (asm) get_bucket_loop_step)
      (auto split: option.splits if_splits dest: probe_index_lt)
next
  case (Suc n)
  from Suc.hyps(2) have le: "i + 1 \<le> REHASH_ROUNDS P" and n: "n = REHASH_ROUNDS P - (i + 1)"
    by simp_all
  show ?case
  proof (cases "foreign_probe P s x y salt i")
    case True
    with Suc.prems le
    have "get_bucket_loop P s x y salt (i + 1) (current_round s + word_of_nat (i + 1)) = Some (s', b)"
      by (simp add: get_bucket_loop_foreign)
    from Suc.hyps(1) [OF n this] show ?thesis .
  next
    case False
    with Suc.prems show ?thesis
      by (subst (asm) get_bucket_loop_step)
        (auto simp: foreign_probe_def foreign_def split: option.splits if_splits
           dest: probe_index_lt)
  qed
qed

lemma get_bucket_result:
  assumes "get_bucket P s x y salt = Some (s', b)"
  shows "b < length (hash_table s)"
    and "s' = s \<and> last_claimed (hash_table s ! b) = current_round s
      \<or> s' = claimed s b x y \<and> last_claimed (hash_table s ! b) \<noteq> current_round s"
  using get_bucket_loop_result [of P s x y salt 0 s' b] assms
  by (simp_all add: get_bucket_def)

lemma claimed_simps:
  "current_round (claimed s p x y) = current_round s"
  "table_size (claimed s p x y) = table_size s"
  "inv_cell_size (claimed s p x y) = inv_cell_size s"
  "length (hash_table (claimed s p x y)) = length (hash_table s)"
  "p < length (hash_table s) \<Longrightarrow>
     hash_table (claimed s p x y) ! p =
       \<lparr>bucket_x = x, bucket_y = y, last_claimed = current_round s, data = []\<rparr>"
  "q \<noteq> p \<Longrightarrow> hash_table (claimed s p x y) ! q = hash_table s ! q"
  by (simp_all add: claimed_def)

lemma later_in_round_claimed:
  assumes "p < length (hash_table s)" "last_claimed (hash_table s ! p) \<noteq> current_round s"
  shows "later_in_round s (claimed s p x y)"
  unfolding claimed_def using assms by (intro later_in_round_update) auto

lemma get_bucket_later:
  assumes "get_bucket P s x y salt = Some (s', b)"
  shows "later_in_round s s'"
  using get_bucket_result [OF assms]
  by (auto simp: later_in_round_refl later_in_round_claimed)

lemma get_bucket_current:
  assumes "get_bucket P s x y salt = Some (s', b)"
  shows "b < length (hash_table s')" "last_claimed (hash_table s' ! b) = current_round s'"
  using get_bucket_result [OF assms] by (auto simp: claimed_simps)

text \<open>
  A call that resolved to bucket \<open>b\<close> resolves to \<open>b\<close> again on every table later in
  the round, and writes nothing there.
\<close>

lemma get_bucket_loop_again:
  assumes "get_bucket_loop P s x y salt i (current_round s + word_of_nat i) = Some (s', b)"
    and "later_in_round s' t"
  shows "get_bucket_loop P t x y salt i (current_round t + word_of_nat i) = Some (t, b)"
  using assms
proof (induction "REHASH_ROUNDS P - i" arbitrary: i)
  case 0
  then have nle: "\<not> i + 1 \<le> REHASH_ROUNDS P" by simp
  from "0.prems"(1) have res: "b < length (hash_table s)"
      "s' = s \<and> last_claimed (hash_table s ! b) = current_round s
        \<or> s' = claimed s b x y \<and> last_claimed (hash_table s ! b) \<noteq> current_round s"
    using get_bucket_loop_result by blast+
  from "0.prems"(1) nle have pi: "probe_index P s x y salt i = Some b"
    by (subst (asm) get_bucket_loop_step) (auto split: option.splits if_splits)
  have st: "later_in_round s t"
    using res "0.prems"(2) later_in_round_claimed later_in_round_trans by blast
  have pt: "probe_index P t x y salt i = Some b"
    using pi probe_index_later [OF st] by simp
  have cur: "b < length (hash_table s')" "last_claimed (hash_table s' ! b) = current_round s'"
    using res by (auto simp: claimed_simps)
  from later_in_round_bucket [OF "0.prems"(2) cur]
  have tb: "last_claimed (hash_table t ! b) = current_round t"
    using later_in_roundD [OF "0.prems"(2)] by simp
  show ?case
    using pt tb nle by (subst get_bucket_loop_step) simp
next
  case (Suc n)
  from Suc.hyps(2) have le: "i + 1 \<le> REHASH_ROUNDS P" and n: "n = REHASH_ROUNDS P - (i + 1)"
    by simp_all
  from Suc.prems(1) have res: "b < length (hash_table s)"
      "s' = s \<and> last_claimed (hash_table s ! b) = current_round s
        \<or> s' = claimed s b x y \<and> last_claimed (hash_table s ! b) \<noteq> current_round s"
    using get_bucket_loop_result by blast+
  have st: "later_in_round s t"
    using res Suc.prems(2) later_in_round_claimed later_in_round_trans by blast
  have crt: "current_round t = current_round s" "current_round s' = current_round s"
    using later_in_roundD [OF st] res by (auto simp: claimed_simps)
  show ?case
  proof (cases "foreign_probe P s x y salt i")
    case True
    with Suc.prems le
    have "get_bucket_loop P s x y salt (i + 1) (current_round s + word_of_nat (i + 1)) = Some (s', b)"
      by (simp add: get_bucket_loop_foreign)
    from Suc.hyps(1) [OF n this Suc.prems(2)]
    have IH: "get_bucket_loop P t x y salt (i + 1) (current_round t + word_of_nat (i + 1)) = Some (t, b)" .
    from foreign_probeD [OF True] obtain p where p: "probe_index P s x y salt i = Some p"
      "last_claimed (hash_table s ! p) = current_round s"
      "\<not> (bucket_x (hash_table s ! p) = x \<and> bucket_y (hash_table s ! p) = y)"
      by blast
    from later_in_round_bucket [OF st probe_index_lt [OF p(1)] p(2)] p crt
    have "foreign_probe P t x y salt i"
      by (simp add: foreign_probe_def foreign_def probe_index_later [OF st])
    then show ?thesis using IH le by (simp add: get_bucket_loop_foreign)
  next
    case False
    with Suc.prems(1) have pi: "probe_index P s x y salt i = Some b"
      by (subst (asm) get_bucket_loop_step)
        (auto simp: foreign_probe_def foreign_def split: option.splits if_splits)
    have pt: "probe_index P t x y salt i = Some b"
      using pi probe_index_later [OF st] by simp
    from False pi have xy: "last_claimed (hash_table s ! b) = current_round s \<longrightarrow>
        bucket_x (hash_table s ! b) = x \<and> bucket_y (hash_table s ! b) = y"
      by (simp add: foreign_probe_def foreign_def)
    have cur: "b < length (hash_table s')" "last_claimed (hash_table s' ! b) = current_round s'"
      and xy': "bucket_x (hash_table s' ! b) = x \<and> bucket_y (hash_table s' ! b) = y"
      using res xy by (auto simp: claimed_simps)
    from later_in_round_bucket [OF Suc.prems(2) cur] xy' crt
    have "last_claimed (hash_table t ! b) = current_round t"
      "bucket_x (hash_table t ! b) = x" "bucket_y (hash_table t ! b) = y"
      by simp_all
    then show ?thesis using pt by (subst get_bucket_loop_step) simp
  qed
qed

lemma get_bucket_again:
  assumes "get_bucket P s x y salt = Some (s', b)" and "later_in_round s' t"
  shows "get_bucket P t x y salt = Some (t, b)"
  using get_bucket_loop_again [of P s x y salt 0 s' b t] assms by (simp add: get_bucket_def)

section \<open>Totality of the cell operations\<close>

lemma get_bucket_loop_total:
  assumes "table_ok P s"
  shows "\<exists>s' b. get_bucket_loop P s x y salt i (current_round s + word_of_nat i) = Some (s', b)"
proof (induction "REHASH_ROUNDS P - i" arbitrary: i)
  case 0
  then have nle: "\<not> i + 1 \<le> REHASH_ROUNDS P" by simp
  from probe_index_ok [OF assms] obtain p where "probe_index P s x y salt i = Some p" by blast
  with nle show ?case by (subst get_bucket_loop_step) simp
next
  case (Suc n)
  from Suc.hyps(2) have n: "n = REHASH_ROUNDS P - (i + 1)" by simp
  from probe_index_ok [OF assms] obtain p where p: "probe_index P s x y salt i = Some p" by blast
  show ?case
  proof (cases "foreign_probe P s x y salt i")
    case True
    with Suc.hyps(1) [OF n] show ?thesis by (simp only: get_bucket_loop_foreign split: if_splits) simp
  next
    case False
    with p show ?thesis
      by (subst get_bucket_loop_step) (auto simp: foreign_probe_def foreign_def)
  qed
qed

lemma get_bucket_total:
  "table_ok P s \<Longrightarrow> \<exists>s' b. get_bucket P s x y salt = Some (s', b)"
  by (simp add: get_bucket_def get_bucket_loop_total [of P s x y salt 0, simplified])

lemma table_ok_later: "later_in_round s t \<Longrightarrow> table_ok P s \<Longrightarrow> table_ok P t"
  using later_in_roundD [of s t] by (simp add: table_ok_def)

lemma insert_at_cell_later:
  assumes "insert_at_cell P s x y v salt = Some s1"
  shows "later_in_round s s1"
proof -
  from assms obtain s' b where g: "get_bucket P s x y salt = Some (s', b)"
    and s1: "s1 = s'\<lparr>hash_table := (hash_table s')
                  [b := (hash_table s' ! b)\<lparr>data := data (hash_table s' ! b) @ [v]\<rparr>]\<rparr>"
    by (auto simp: insert_at_cell_def split: option.splits)
  have "later_in_round s' s1"
    unfolding s1 using get_bucket_current(1) [OF g] by (intro later_in_round_update) auto
  with get_bucket_later [OF g] show ?thesis by (rule later_in_round_trans)
qed

lemma insert_at_cell_total:
  "table_ok P s \<Longrightarrow> \<exists>s1. insert_at_cell P s x y v salt = Some s1"
  using get_bucket_total [of P s x y salt] by (auto simp: insert_at_cell_def)

lemma query_at_cell_later:
  "query_at_cell P s result x y salt = Some (t, out) \<Longrightarrow> later_in_round s t"
  by (auto simp: query_at_cell_def split: option.splits dest: get_bucket_later)

lemma query_at_cell_total:
  "table_ok P s \<Longrightarrow> \<exists>t out. query_at_cell P s result x y salt = Some (t, out)"
  using get_bucket_total [of P s x y salt] by (auto simp: query_at_cell_def)

section \<open>Insertion followed by a query\<close>

text \<open>
  C6. On a table whose probe indices stay inside the vector, \<open>insert_at_cell\<close> returns
  a table, and \<open>query_at_cell\<close> for the same cell and salt, on that table or on any
  table later in the same round (so before any \<open>reset\<close>), returns an output sequence
  that contains the inserted value. No assumption on probe exhaustion is needed: an
  exhausted insertion and the query after it end on the same last probe.
\<close>

theorem insert_then_query_finds:
  assumes "table_ok P s"
  shows "\<exists>s1. insert_at_cell P s x y v salt = Some s1 \<and>
           (\<forall>t. later_in_round s1 t \<longrightarrow>
              (\<exists>out. query_at_cell P t result x y salt = Some (t, out) \<and> v \<in> set out))"
proof -
  from get_bucket_total [OF assms] obtain s' b where g: "get_bucket P s x y salt = Some (s', b)"
    by blast
  define s1 where "s1 = s'\<lparr>hash_table := (hash_table s')
                  [b := (hash_table s' ! b)\<lparr>data := data (hash_table s' ! b) @ [v]\<rparr>]\<rparr>"
  have ins: "insert_at_cell P s x y v salt = Some s1"
    using g by (simp add: insert_at_cell_def s1_def)
  have b: "b < length (hash_table s')" and cur: "last_claimed (hash_table s' ! b) = current_round s'"
    using get_bucket_current [OF g] by simp_all
  have s's1: "later_in_round s' s1"
    unfolding s1_def using b by (intro later_in_round_update) auto
  have b1: "b < length (hash_table s1)" "last_claimed (hash_table s1 ! b) = current_round s1"
    "v \<in> set (data (hash_table s1 ! b))"
    using b cur by (simp_all add: s1_def)
  have "\<exists>out. query_at_cell P t result x y salt = Some (t, out) \<and> v \<in> set out"
    if t: "later_in_round s1 t" for t
  proof -
    have "later_in_round s' t" using s's1 t by (rule later_in_round_trans)
    from get_bucket_again [OF g this] have q: "get_bucket P t x y salt = Some (t, b)" .
    from later_in_round_bucket [OF t b1(1,2)] b1(3) have "v \<in> set (data (hash_table t ! b))"
      by blast
    with q show ?thesis by (simp add: query_at_cell_def)
  qed
  with ins show ?thesis by blast
qed

theorem insert_then_query_finds_witness:
  "table_ok default_args table4 \<and>
   (\<exists>s1 out. insert_at_cell default_args table4 0 0 7 0 = Some s1 \<and>
      query_at_cell default_args s1 [] 0 0 0 = Some (s1, out) \<and> 7 \<in> set out)"
proof -
  have ok: "table_ok default_args table4" by code_simp
  from insert_then_query_finds [OF ok, of 0 0 7 0 "[]"] later_in_round_refl ok
  show ?thesis by blast
qed

declare insert_aabb_j.simps [simp del] insert_aabb_i.simps [simp del]
  query_aabb_j.simps [simp del] query_aabb_i.simps [simp del]

section \<open>Queries of one cell\<close>

lemma query_aabb_one_cell:
  "query_aabb_i P s result x x y y salt = query_at_cell P s result x y salt"
proof -
  have j: "query_aabb_j P t r x (y + 1) y salt = Some (t, r)" for t r
    by (subst query_aabb_j.simps) simp
  have i: "query_aabb_i P t r (x + 1) x y y salt = Some (t, r)" for t r
    by (subst query_aabb_i.simps) simp
  have "query_aabb_j P s result x y y salt = query_at_cell P s result x y salt"
    by (subst query_aabb_j.simps) (simp add: j split: option.splits)
  then show ?thesis
    by (subst query_aabb_i.simps) (simp add: i split: option.splits)
qed

lemma query_segment_one_cell:
  "query_segment_loop P s result salt x y x y dx dy sx sy err = query_at_cell P s result x y salt"
  by (subst query_segment_loop.simps) (cases "query_at_cell P s result x y salt"; simp)

text \<open>
  C9. Queries write to the table. When the bucket a query resolves to (the first probe
  that is not claimed this round by other coordinates) carries the stamp of another
  round, \<open>query_at_cell\<close> returns the table with that bucket claimed (stamp set to the
  current round, coordinates \<open>(x, y)\<close>, data emptied), a table different from the one
  it was given, and the output sequence as it was. \<open>query_at_point\<close>, and
  \<open>query_at_aabb\<close> and \<open>query_at_segment\<close> on a box or segment of that one cell, do
  the same.
\<close>

theorem query_claims_stale_bucket:
  assumes "k \<le> REHASH_ROUNDS P"
    and "\<forall>j<k. foreign_probe P s x y salt j"
    and "probe_index P s x y salt k = Some p"
    and "last_claimed (hash_table s ! p) \<noteq> current_round s"
  shows "query_at_cell P s result x y salt = Some (claimed s p x y, result)
       \<and> claimed s p x y \<noteq> s
       \<and> hash_table (claimed s p x y) ! p =
           \<lparr>bucket_x = x, bucket_y = y, last_claimed = current_round s, data = []\<rparr>
       \<and> (cell s px = x \<and> cell s py = y \<longrightarrow>
            query_at_point P s result px py salt = Some (claimed s p x y, result)
          \<and> query_at_aabb P s result px py px py salt = Some (claimed s p x y, result)
          \<and> query_at_segment P s result px py px py salt = Some (claimed s p x y, result))"
proof -
  have g: "get_bucket P s x y salt = Some (claimed s p x y, p)"
    using assms by (simp add: get_bucket_skip get_bucket_loop_step)
  have lt: "p < length (hash_table s)" using assms(3) by (rule probe_index_lt)
  have b: "hash_table (claimed s p x y) ! p =
           \<lparr>bucket_x = x, bucket_y = y, last_claimed = current_round s, data = []\<rparr>"
    using lt by (simp add: claimed_simps)
  have q: "query_at_cell P s result x y salt = Some (claimed s p x y, result)"
    using g b by (simp add: query_at_cell_def)
  have ne: "claimed s p x y \<noteq> s"
  proof
    assume "claimed s p x y = s"
    then have "last_claimed (hash_table (claimed s p x y) ! p) = last_claimed (hash_table s ! p)"
      by simp
    with b assms(4) show False by simp
  qed
  have "query_at_point P s result px py salt = Some (claimed s p x y, result)
      \<and> query_at_aabb P s result px py px py salt = Some (claimed s p x y, result)
      \<and> query_at_segment P s result px py px py salt = Some (claimed s p x y, result)"
    if "cell s px = x \<and> cell s py = y"
    using that q
    by (simp add: query_at_point_def query_at_aabb_def query_at_segment_def Let_def
        query_aabb_one_cell query_segment_one_cell)
  with q ne b show ?thesis by blast
qed

theorem query_claims_stale_bucket_witness:
  "foreign_probe default_args table4 0 0 0 0
   \<and> probe_index default_args table4 0 0 0 1 = Some 3
   \<and> last_claimed (hash_table table4 ! 3) \<noteq> current_round table4
   \<and> query_at_cell default_args table4 [] 0 0 0 = Some (claimed table4 3 0 0, [])
   \<and> claimed table4 3 0 0 \<noteq> table4"
proof -
  have f: "foreign_probe default_args table4 0 0 0 0" by code_simp
  have k: "1 \<le> REHASH_ROUNDS default_args" by (simp add: default_args_def)
  have a: "\<forall>j<1. foreign_probe default_args table4 0 0 0 j" using f by simp
  have p: "probe_index default_args table4 0 0 0 1 = Some 3" by code_simp
  have st: "last_claimed (hash_table table4 ! 3) \<noteq> current_round table4"
    by (simp add: table4_def HashBucket_new_def)
  from query_claims_stale_bucket [OF k a p st, of "[]"] st f p show ?thesis by blast
qed

section \<open>Reset\<close>

lemma length_resize: "length (resize n d xs) = n"
  by (simp add: resize_def)

lemma set_resize: "set (resize n d xs) \<subseteq> insert d (set xs)"
  by (auto simp: resize_def dest: in_set_takeD)

lemma reset_simps:
  "current_round (reset s c n) = current_round s + 1"
  "inv_cell_size (reset s c n) = 1 / c"
  "table_size (reset s c n) = n"
  "hash_table (reset s c n) =
     (if table_size s \<noteq> n then resize (unat n) HashBucket_new (hash_table s) else hash_table s)"
  by (simp_all add: reset_def Let_def)

lemma table_ok_reset:
  assumes "table_ok P s" "n \<noteq> 0"
  shows "table_ok P (reset s c n)"
  using assms by (auto simp: table_ok_def reset_simps length_resize)

lemma table_ok_new: "ReduceFn P \<noteq> Identity \<Longrightarrow> n \<noteq> 0 \<Longrightarrow> table_ok P (SpatialHash_new c n)"
  by (simp add: table_ok_def SpatialHash_new_def length_resize)

lemma stamps_ok_new: "stamps_ok (SpatialHash_new c n)"
  by (simp add: stamps_ok_def SpatialHash_new_def resize_def HashBucket_new_def list_all_iff)

lemma stamps_ok_claimed:
  assumes "stamps_ok s"
  shows "stamps_ok (claimed s p x y)"
  using assms
  by (auto simp: stamps_ok_def claimed_def list_all_iff dest!: set_update_subset_insert [THEN subsetD])

lemma stamps_ok_get_bucket:
  assumes "get_bucket P s x y salt = Some (t, b)" "stamps_ok s"
  shows "stamps_ok t"
  using get_bucket_result(2) [OF assms(1)] assms(2) by (auto simp: stamps_ok_claimed)

lemma stamps_ok_insert_at_cell:
  assumes "insert_at_cell P s x y v salt = Some t" "stamps_ok s"
  shows "stamps_ok t"
proof -
  from assms(1) obtain s' b where g: "get_bucket P s x y salt = Some (s', b)"
    and t: "t = s'\<lparr>hash_table := (hash_table s')
                  [b := (hash_table s' ! b)\<lparr>data := data (hash_table s' ! b) @ [v]\<rparr>]\<rparr>"
    by (auto simp: insert_at_cell_def split: option.splits)
  from stamps_ok_get_bucket [OF g assms(2)] have s': "stamps_ok s'" .
  have b: "b < length (hash_table s')" using get_bucket_current(1) [OF g] .
  show ?thesis
    unfolding t using s' b
    by (auto simp: stamps_ok_def list_all_iff dest!: set_update_subset_insert [THEN subsetD])
qed

lemma stamps_ok_query_at_cell:
  "query_at_cell P s result x y salt = Some (t, out) \<Longrightarrow> stamps_ok s \<Longrightarrow> stamps_ok t"
  by (auto simp: query_at_cell_def split: option.splits dest: stamps_ok_get_bucket)

lemma word_le_succ: "(w :: uint32) \<noteq> - 1 \<Longrightarrow> w \<le> w + 1"
  using inc_less_eq_self_iff_eq by fastforce

lemma word_le_neq_succ: "(w :: uint32) \<noteq> - 1 \<Longrightarrow> v \<le> w \<Longrightarrow> v \<noteq> w + 1"
  by (metis inc_less_eq_triv_imp)

lemma word_succ_neq_sentinel:
  assumes "(w :: uint32) < 0xFFFFFFFE"
  shows "w + 1 \<noteq> - 1" and "w \<noteq> - 1"
proof -
  show "w + 1 \<noteq> - 1"
  proof
    assume a: "w + 1 = - 1"
    have "w = (w + 1) - 1" by simp
    also have "\<dots> = - 1 - 1" by (simp only: a)
    also have "\<dots> = 0xFFFFFFFE" by simp
    finally show False using assms by simp
  qed
  show "w \<noteq> - 1" using assms by auto
qed

lemma stamps_ok_reset:
  assumes "stamps_ok s" "current_round s \<noteq> - 1"
  shows "stamps_ok (reset s c n)"
proof -
  have le: "current_round s \<le> current_round s + 1"
    using assms(2) by (rule word_le_succ)
  have "last_claimed b = - 1 \<or> last_claimed b \<le> current_round s + 1"
    if "b \<in> set (hash_table (reset s c n))" for b
  proof -
    from that set_resize [of "unat n" HashBucket_new "hash_table s"]
    have "b = HashBucket_new \<or> b \<in> set (hash_table s)"
      by (auto simp: reset_simps split: if_splits)
    then show ?thesis
    proof
      assume "b = HashBucket_new"
      then show ?thesis by (simp add: HashBucket_new_def)
    next
      assume "b \<in> set (hash_table s)"
      with assms(1) have "last_claimed b = - 1 \<or> last_claimed b \<le> current_round s"
        by (simp add: stamps_ok_def list_all_iff)
      with le show ?thesis by auto
    qed
  qed
  then show ?thesis by (simp add: stamps_ok_def list_all_iff reset_simps(1))
qed

text \<open>After a reset of a table with sound stamps no bucket carries the new round.\<close>

lemma reset_all_stale:
  assumes "stamps_ok s" "current_round s < 0xFFFFFFFE" "b \<in> set (hash_table (reset s c n))"
  shows "last_claimed b \<noteq> current_round (reset s c n)"
proof -
  from assms(3) set_resize [of "unat n" HashBucket_new "hash_table s"]
  have "b = HashBucket_new \<or> b \<in> set (hash_table s)"
    by (auto simp: reset_simps split: if_splits)
  then have "last_claimed b = - 1 \<or> last_claimed b \<le> current_round s"
    using assms(1) by (auto simp: HashBucket_new_def stamps_ok_def list_all_iff)
  then show ?thesis
    using word_succ_neq_sentinel [OF assms(2)] word_le_neq_succ [of "current_round s" "last_claimed b"]
    by (auto simp: reset_simps(1))
qed

text \<open>
  C7. \<open>reset\<close> always adds one to \<open>_current_round\<close> and stores the new cell scale;
  the bucket vector is resized only when the table size differs and is otherwise the
  vector it was. On a table whose stamps are sound and whose round counter is below
  \<open>0xFFFFFFFE\<close> (the counter has not reached the stamp \<open>-1\<close> of unclaimed buckets,
  nor wrapped), a query of any cell after the reset, with an empty output sequence,
  returns the empty sequence: the first probe finds a stale bucket, and no bucket has
  been visited by \<open>reset\<close>.
\<close>

theorem reset_bumps_round:
  "current_round (reset s c n) = current_round s + 1
   \<and> inv_cell_size (reset s c n) = 1 / c
   \<and> table_size (reset s c n) = n
   \<and> hash_table (reset s c n) =
       (if table_size s \<noteq> n then resize (unat n) HashBucket_new (hash_table s)
        else hash_table s)
   \<and> (stamps_ok s \<and> current_round s < 0xFFFFFFFE \<and> table_ok P (reset s c n) \<longrightarrow>
        (\<exists>t. query_at_cell P (reset s c n) [] x y salt = Some (t, [])))"
proof -
  have "\<exists>t. query_at_cell P (reset s c n) [] x y salt = Some (t, [])"
    if st: "stamps_ok s" and cr: "current_round s < 0xFFFFFFFE" and ok: "table_ok P (reset s c n)"
  proof -
    let ?r = "reset s c n"
    from probe_index_ok [OF ok] obtain p where p: "probe_index P ?r x y salt 0 = Some p"
      by blast
    have lt: "p < length (hash_table ?r)" using p by (rule probe_index_lt)
    then have "hash_table ?r ! p \<in> set (hash_table ?r)" by simp
    from reset_all_stale [OF st cr this]
    have stale: "last_claimed (hash_table ?r ! p) \<noteq> current_round ?r" .
    have "get_bucket P ?r x y salt = Some (claimed ?r p x y, p)"
      using p stale get_bucket_loop_step [of P ?r x y salt 0]
      by (simp add: get_bucket_def)
    then show ?thesis
      using lt by (simp add: query_at_cell_def claimed_simps)
  qed
  then show ?thesis by (simp add: reset_simps)
qed

theorem reset_bumps_round_witness:
  "stamps_ok table4 \<and> current_round table4 < 0xFFFFFFFE
   \<and> table_ok default_args (reset table4 1 4)
   \<and> current_round (reset table4 1 4) = 1
   \<and> hash_table (reset table4 1 4) = hash_table table4
   \<and> (\<exists>t. query_at_cell default_args (reset table4 1 4) [] 5 5 0 = Some (t, []))"
proof -
  have st: "stamps_ok table4" by code_simp
  have cr: "current_round table4 < 0xFFFFFFFE" by (simp add: table4_def)
  have ok: "table_ok default_args (reset table4 1 4)" by code_simp
  have ts: "table_size table4 = 4" "current_round table4 = 0" by (simp_all add: table4_def)
  from reset_bumps_round [of table4 1 4 default_args 5 5 0] st cr ok ts
  show ?thesis by auto
qed

text \<open>
  Beyond the hypothesis of C7: when the counter wraps to a round in which a bucket was
  last claimed, the data of that round is found again.
\<close>

lemma reset_after_wraparound:
  "query_at_cell default_args (reset table_wrapped 1 1) [] 5 5 0 =
     Some (reset table_wrapped 1 1, [42])"
  by code_simp

section \<open>Salts\<close>

text \<open>
  C10. A bucket stores coordinates and no salt. In a table of 16 buckets, the cell
  \<open>(0, 0)\<close> inserted with salt 0 claims bucket 5 at its first probe; the first probe
  for the same cell with salt 2 is bucket 5 as well, its coordinates match, and
  \<open>get_bucket\<close> returns it: the query with salt 2 finds the value inserted with salt 0,
  after one probe each.
\<close>

theorem salts_share_bucket:
  "insert_at_cell default_args (SpatialHash_new 1 16) 0 0 7 0 = Some table16
   \<and> probe_index default_args (SpatialHash_new 1 16 :: nat SpatialHash) 0 0 0 0 = Some 5
   \<and> probe_index default_args table16 0 0 2 0 = Some 5
   \<and> get_bucket default_args table16 0 0 2 = Some (table16, 5)
   \<and> query_at_cell default_args table16 [] 0 0 2 = Some (table16, [7])"
  by code_simp

section \<open>Segments\<close>

declare insert_segment_loop.simps [code] query_segment_loop.simps [code]

text \<open>
  The loop of \<open>query_at_segment\<close> is entered with \<open>dy = |y1 - y0|\<close>, not its negation.
  As long as \<open>0 \<le> dy < 2 * err\<close> the first branch is taken: \<open>x0\<close> moves, \<open>err\<close> grows by
  \<open>dy\<close>, \<open>y0\<close> stays; when \<open>y0 \<noteq> y1\<close> the exit test never holds.
\<close>

lemma query_segment_loop_diverges:
  assumes "y0 \<noteq> y1" "0 \<le> dy" "dy < 2 * err"
  shows "query_segment_loop P s result salt x0 y0 x1 y1 dx dy sx sy err = None"
proof (rule ccontr)
  assume "query_segment_loop P s result salt x0 y0 x1 y1 dx dy sx sy err \<noteq> None"
  then obtain r where r: "query_segment_loop P s result salt x0 y0 x1 y1 dx dy sx sy err = Some r"
    by blast
  have "(\<lambda>((((((((((((P, s), result), salt), x0), y0), x1), y1), dx), dy), sx), sy), err) r.
          \<not> (y0 \<noteq> y1 \<and> 0 \<le> dy \<and> dy < 2 * (err :: int)))
        ((((((((((((P, s), result), salt), x0), y0), x1), y1), dx), dy), sx), sy), err) r"
  proof (rule query_segment_loop.raw_induct [OF _ r], goal_cases)
    case (1 f P s result salt x0 y0 x1 y1 dx dy sx sy err r)
    show ?case
    proof (clarsimp)
      assume inv: "y0 \<noteq> y1" "0 \<le> dy" "dy < 2 * err"
      from "1"(2) obtain s' r' where q: "query_at_cell P s result x0 y0 salt = Some (s', r')"
        by (cases "query_at_cell P s result x0 y0 salt") auto
      with "1"(2) inv have "f P s' r' salt (x0 + sx) y0 x1 y1 dx dy sx sy (err + dy) = Some r"
        by (simp add: Let_def)
      from "1"(1) [OF this] inv show False by simp
    qed
  qed
  with assms show False by simp
qed

lemma query_at_segment_diverges:
  assumes "cell s py \<noteq> cell s qy"
  shows "query_at_segment P s result px py qx qy salt = None"
proof -
  have "\<bar>cell s qy - cell s py\<bar> < 2 * (\<bar>cell s qx - cell s px\<bar> + \<bar>cell s qy - cell s py\<bar>)"
    using assms by (simp add: abs_if)
  then show ?thesis
    using assms
    by (simp add: query_at_segment_def Let_def query_segment_loop_diverges)
qed

text \<open>
  C3 fails on \<open>query_at_segment\<close>: on a four-bucket table on which every cell
  operation returns, the query of the segment from \<open>(0, 0)\<close> to \<open>(0, 1)\<close>, whose
  end cells share the x coordinate, never leaves its loop. \<open>insert_at_segment\<close>
  negates \<open>dy\<close> and returns on every segment (\<open>insert_at_segment_returns\<close> below).
\<close>

theorem query_at_segment_never_returns:
  "table_ok default_args table4
   \<and> query_at_segment default_args table4 [] 0 0 0 1 0 = None"
proof -
  have ok: "table_ok default_args table4" by code_simp
  have "cell table4 0 \<noteq> cell table4 1" by (simp add: cell_def table4_def)
  from query_at_segment_diverges [OF this] ok show ?thesis by simp
qed


text \<open>
  The loop of \<open>insert_at_segment\<close> returns. With \<open>rx\<close> and \<open>ry\<close> the steps left on each
  axis, \<open>err = dx + dy - rx * dy - ry * dx\<close> holds on entry of every pass, and every
  pass that is not the last one takes one step.
\<close>

lemma insert_segment_loop_returns:
  assumes "table_ok P s"
    and "sx = 1 \<or> sx = - 1" "sy = 1 \<or> sy = - 1"
    and "0 \<le> rx" "rx \<le> dx" "0 \<le> ry" "ry \<le> - dy"
    and "x1 - x0 = sx * rx" "y1 - y0 = sy * ry"
    and "err = dx + dy - rx * dy - ry * dx"
  shows "\<exists>t. insert_segment_loop P s v salt x0 y0 x1 y1 dx dy sx sy err = Some t
            \<and> later_in_round s t"
  using assms
proof (induction "nat (rx + ry)" arbitrary: s x0 y0 rx ry err)
  case 0
  then have "rx = 0" "ry = 0" by simp_all
  with "0.prems" have fin: "x0 = x1 \<and> y0 = y1" by simp
  from insert_at_cell_total [OF "0.prems"(1)] obtain s1
    where s1: "insert_at_cell P s x0 y0 v salt = Some s1" by blast
  have "insert_segment_loop P s v salt x0 y0 x1 y1 dx dy sx sy err = Some s1"
    using s1 fin by (subst insert_segment_loop.simps) simp
  with insert_at_cell_later [OF s1] show ?case by simp
next
  case (Suc n)
  from insert_at_cell_total [OF Suc.prems(1)] obtain s1
    where s1: "insert_at_cell P s x0 y0 v salt = Some s1" by blast
  have l1: "later_in_round s s1" using s1 by (rule insert_at_cell_later)
  have ok1: "table_ok P s1" using l1 Suc.prems(1) by (rule table_ok_later)
  from Suc.hyps(2) Suc.prems have pos: "0 < rx + ry" by simp
  have nfin: "\<not> (x0 = x1 \<and> y0 = y1)"
  proof
    assume "x0 = x1 \<and> y0 = y1"
    with Suc.prems(2,3,8,9) have "rx = 0 \<and> ry = 0" by auto
    with pos show False by simp
  qed
  show ?case
  proof (cases "dy < 2 * err")
    case True
    have rxpos: "1 \<le> rx"
    proof (rule ccontr)
      assume "\<not> 1 \<le> rx"
      with Suc.prems(4) have rx0: "rx = 0" by simp
      with pos have ry1: "1 \<le> ry" by simp
      have dx0: "0 \<le> dx" using Suc.prems(4,5) by simp
      from ry1 dx0 have "1 * dx \<le> ry * dx" by (intro mult_right_mono) simp_all
      then have "dx \<le> ry * dx" by simp
      moreover have "err = dx + dy - ry * dx" using Suc.prems(10) rx0 by simp
      ultimately show False using True ry1 dx0 Suc.prems(7) by linarith
    qed
    have step: "insert_segment_loop P s v salt x0 y0 x1 y1 dx dy sx sy err =
        insert_segment_loop P s1 v salt (x0 + sx) y0 x1 y1 dx dy sx sy (err + dy)"
      using s1 nfin True by (subst insert_segment_loop.simps) (auto simp: Let_def)
    have n: "n = nat ((rx - 1) + ry)" using Suc.hyps(2) rxpos by simp
    have x: "x1 - (x0 + sx) = sx * (rx - 1)"
      using Suc.prems(8) by (simp add: algebra_simps)
    have e: "err + dy = dx + dy - (rx - 1) * dy - ry * dx"
      using Suc.prems(10) by (simp add: algebra_simps)
    from Suc.hyps(1) [OF n ok1 Suc.prems(2,3) _ _ Suc.prems(6,7) x Suc.prems(9) e]
      rxpos Suc.prems(5)
    obtain t where "insert_segment_loop P s1 v salt (x0 + sx) y0 x1 y1 dx dy sx sy (err + dy) = Some t"
      "later_in_round s1 t" by auto
    with step l1 show ?thesis by (auto intro: later_in_round_trans)
  next
    case False
    have rypos: "1 \<le> ry"
    proof (rule ccontr)
      assume "\<not> 1 \<le> ry"
      with Suc.prems(6) have ry0: "ry = 0" by simp
      with pos have rx1: "1 \<le> rx" by simp
      have dy0: "dy \<le> 0" using Suc.prems(6,7) by simp
      from rx1 dy0 have "1 * (- dy) \<le> rx * (- dy)" by (intro mult_right_mono) simp_all
      then have "rx * dy \<le> dy" by simp
      moreover have "err = dx + dy - rx * dy" using Suc.prems(10) ry0 by simp
      ultimately show False using False rx1 dy0 Suc.prems(5) by linarith
    qed
    have lt: "2 * err < dx"
      using False rypos Suc.prems(4,5,7) by linarith
    have step: "insert_segment_loop P s v salt x0 y0 x1 y1 dx dy sx sy err =
        insert_segment_loop P s1 v salt x0 (y0 + sy) x1 y1 dx dy sx sy (err + dx)"
      using s1 nfin False lt by (subst insert_segment_loop.simps) (auto simp: Let_def)
    have n: "n = nat (rx + (ry - 1))" using Suc.hyps(2) rypos by simp
    have y: "y1 - (y0 + sy) = sy * (ry - 1)"
      using Suc.prems(9) by (simp add: algebra_simps)
    have e: "err + dx = dx + dy - rx * dy - (ry - 1) * dx"
      using Suc.prems(10) by (simp add: algebra_simps)
    from Suc.hyps(1) [OF n ok1 Suc.prems(2,3,4,5) _ _ Suc.prems(8) y e]
      rypos Suc.prems(7)
    obtain t where "insert_segment_loop P s1 v salt x0 (y0 + sy) x1 y1 dx dy sx sy (err + dx) = Some t"
      "later_in_round s1 t" by auto
    with step l1 show ?thesis by (auto intro: later_in_round_trans)
  qed
qed

lemma insert_at_segment_returns:
  assumes "table_ok P s"
  shows "\<exists>t. insert_at_segment P s px py qx qy v salt = Some t \<and> later_in_round s t"
proof -
  let ?x0 = "cell s px" and ?y0 = "cell s py" and ?x1 = "cell s qx" and ?y1 = "cell s qy"
  let ?sx = "if ?x0 < ?x1 then 1 else - 1 :: int" and ?sy = "if ?y0 < ?y1 then 1 else - 1 :: int"
  have "\<exists>t. insert_segment_loop P s v salt ?x0 ?y0 ?x1 ?y1 \<bar>?x1 - ?x0\<bar> (- \<bar>?y1 - ?y0\<bar>)
          ?sx ?sy (\<bar>?x1 - ?x0\<bar> + - \<bar>?y1 - ?y0\<bar>) = Some t \<and> later_in_round s t"
    by (rule insert_segment_loop_returns [OF assms, where rx = "\<bar>?x1 - ?x0\<bar>" and ry = "\<bar>?y1 - ?y0\<bar>"])
      (auto simp: algebra_simps)
  then show ?thesis by (simp add: insert_at_segment_def Let_def)
qed

text \<open>
  C4 fails: the two traversals differ. From \<open>(0, 0)\<close> to \<open>(1, 1)\<close>,
  \<open>insert_at_segment\<close> visits the cells \<open>(0, 0)\<close>, \<open>(1, 0)\<close>, \<open>(1, 1)\<close> and returns
  the table that holds the value in these three cells; each is found by a cell query.
  \<open>query_at_segment\<close> on the same segment, on that table, visits
  \<open>(0, 0)\<close>, \<open>(1, 0)\<close>, \<open>(2, 0)\<close>, ... and never returns.
\<close>

theorem segment_query_leaves_inserted_path:
  "insert_at_segment default_args (SpatialHash_new 1 16) 0 0 1 1 7 0 = Some table_diag
   \<and> query_at_cell default_args table_diag [] 1 0 0 = Some (table_diag, [7])
   \<and> query_at_segment default_args table_diag [] 0 0 1 1 0 = None"
proof -
  have i: "insert_at_segment default_args (SpatialHash_new 1 16) 0 0 1 1 7 0 = Some table_diag"
    by code_simp
  have c: "query_at_cell default_args table_diag [] 1 0 0 = Some (table_diag, [7])"
    by code_simp
  have "cell table_diag 0 \<noteq> cell table_diag 1" by (simp add: cell_def table_diag_def)
  from query_at_segment_diverges [OF this] i c show ?thesis by simp
qed

section \<open>The box operations return\<close>

lemma insert_aabb_j_returns:
  "table_ok P s \<Longrightarrow> \<exists>t. insert_aabb_j P s i j b v salt = Some t \<and> later_in_round s t"
proof (induction P s i j b v salt rule: insert_aabb_j.induct)
  case (1 P s i j b v salt)
  show ?case
  proof (cases "j \<le> b")
    case True
    from insert_at_cell_total [OF "1.prems"] obtain s1
      where s1: "insert_at_cell P s i j v salt = Some s1" by blast
    have l1: "later_in_round s s1" using s1 by (rule insert_at_cell_later)
    from "1.IH" [OF True s1 table_ok_later [OF l1 "1.prems"]] obtain t
      where "insert_aabb_j P s1 i (j + 1) b v salt = Some t" "later_in_round s1 t" by blast
    with True s1 l1 show ?thesis
      by (subst insert_aabb_j.simps) (auto intro: later_in_round_trans)
  next
    case False
    then show ?thesis by (subst insert_aabb_j.simps) (simp add: later_in_round_refl)
  qed
qed

lemma insert_aabb_i_returns:
  "table_ok P s \<Longrightarrow> \<exists>t. insert_aabb_i P s i bx ty b v salt = Some t \<and> later_in_round s t"
proof (induction P s i bx ty b v salt rule: insert_aabb_i.induct)
  case (1 P s i bx ty b v salt)
  show ?case
  proof (cases "i \<le> bx")
    case True
    from insert_aabb_j_returns [OF "1.prems"] obtain s1
      where s1: "insert_aabb_j P s i ty b v salt = Some s1" and l1: "later_in_round s s1" by blast
    from "1.IH" [OF True s1 table_ok_later [OF l1 "1.prems"]] obtain t
      where "insert_aabb_i P s1 (i + 1) bx ty b v salt = Some t" "later_in_round s1 t" by blast
    with True s1 l1 show ?thesis
      by (subst insert_aabb_i.simps) (auto intro: later_in_round_trans)
  next
    case False
    then show ?thesis by (subst insert_aabb_i.simps) (simp add: later_in_round_refl)
  qed
qed

lemma insert_at_aabb_returns:
  "table_ok P s \<Longrightarrow> \<exists>t. insert_at_aabb P s px py qx qy v salt = Some t \<and> later_in_round s t"
  by (simp add: insert_at_aabb_def Let_def insert_aabb_i_returns)

lemma query_aabb_j_returns:
  "table_ok P s \<Longrightarrow>
     \<exists>t out. query_aabb_j P s result i j b salt = Some (t, out) \<and> later_in_round s t"
proof (induction P s result i j b salt rule: query_aabb_j.induct)
  case (1 P s result i j b salt)
  show ?case
  proof (cases "j \<le> b")
    case True
    from query_at_cell_total [OF "1.prems"] obtain s1 r1
      where s1: "query_at_cell P s result i j salt = Some (s1, r1)" by blast
    have l1: "later_in_round s s1" using s1 by (rule query_at_cell_later)
    from "1.IH" [OF True s1 refl table_ok_later [OF l1 "1.prems"]] obtain t out
      where "query_aabb_j P s1 r1 i (j + 1) b salt = Some (t, out)" "later_in_round s1 t"
      by blast
    with True s1 l1 show ?thesis
      by (subst query_aabb_j.simps) (auto intro: later_in_round_trans)
  next
    case False
    then show ?thesis by (subst query_aabb_j.simps) (simp add: later_in_round_refl)
  qed
qed

lemma query_aabb_i_returns:
  "table_ok P s \<Longrightarrow>
     \<exists>t out. query_aabb_i P s result i bx ty b salt = Some (t, out) \<and> later_in_round s t"
proof (induction P s result i bx ty b salt rule: query_aabb_i.induct)
  case (1 P s result i bx ty b salt)
  show ?case
  proof (cases "i \<le> bx")
    case True
    from query_aabb_j_returns [OF "1.prems"] obtain s1 r1
      where s1: "query_aabb_j P s result i ty b salt = Some (s1, r1)"
        and l1: "later_in_round s s1" by blast
    from "1.IH" [OF True s1 refl table_ok_later [OF l1 "1.prems"]] obtain t out
      where "query_aabb_i P s1 r1 (i + 1) bx ty b salt = Some (t, out)" "later_in_round s1 t"
      by blast
    with True s1 l1 show ?thesis
      by (subst query_aabb_i.simps) (auto intro: later_in_round_trans)
  next
    case False
    then show ?thesis by (subst query_aabb_i.simps) (simp add: later_in_round_refl)
  qed
qed

lemma query_at_aabb_returns:
  "table_ok P s \<Longrightarrow>
     \<exists>t out. query_at_aabb P s result px py qx qy salt = Some (t, out) \<and> later_in_round s t"
  unfolding query_at_aabb_def Let_def by (rule query_aabb_i_returns)

text \<open>
  \<open>query_at_segment\<close> returns when the end cells share the y coordinate: then
  \<open>dy = 0\<close> and the loop walks along x.
\<close>

lemma query_segment_loop_flat_returns:
  assumes "table_ok P s" and "sx = 1 \<or> sx = - 1" and "0 \<le> rx" and "x1 - x0 = sx * rx"
    and "0 < err \<or> rx = 0"
  shows "\<exists>t out. query_segment_loop P s result salt x0 y1 x1 y1 dx 0 sx sy err = Some (t, out)
            \<and> later_in_round s t"
  using assms
proof (induction "nat rx" arbitrary: s result x0 rx)
  case 0
  then have fin: "x0 = x1" by simp
  from query_at_cell_total [OF "0.prems"(1)] obtain s1 r1
    where s1: "query_at_cell P s result x0 y1 salt = Some (s1, r1)" by blast
  have "query_segment_loop P s result salt x0 y1 x1 y1 dx 0 sx sy err = Some (s1, r1)"
    using s1 fin by (subst query_segment_loop.simps) simp
  with query_at_cell_later [OF s1] show ?case by simp
next
  case (Suc n)
  from query_at_cell_total [OF Suc.prems(1)] obtain s1 r1
    where s1: "query_at_cell P s result x0 y1 salt = Some (s1, r1)" by blast
  have l1: "later_in_round s s1" using s1 by (rule query_at_cell_later)
  have ok1: "table_ok P s1" using l1 Suc.prems(1) by (rule table_ok_later)
  from Suc.hyps(2) have rx: "1 \<le> rx" by simp
  with Suc.prems(2,4) have nfin: "x0 \<noteq> x1" by auto
  from rx Suc.prems(5) have err: "0 < err" by simp
  have step: "query_segment_loop P s result salt x0 y1 x1 y1 dx 0 sx sy err =
      query_segment_loop P s1 r1 salt (x0 + sx) y1 x1 y1 dx 0 sx sy err"
    using s1 nfin err by (subst query_segment_loop.simps) (simp add: Let_def)
  have n: "n = nat (rx - 1)" using Suc.hyps(2) by simp
  have x: "x1 - (x0 + sx) = sx * (rx - 1)" using Suc.prems(4) by (simp add: algebra_simps)
  have r0: "0 \<le> rx - 1" using rx by simp
  have e0: "0 < err \<or> rx - 1 = 0" using err by simp
  from Suc.hyps(1) [OF n ok1 Suc.prems(2) r0 x e0]
  obtain t out where "query_segment_loop P s1 r1 salt (x0 + sx) y1 x1 y1 dx 0 sx sy err = Some (t, out)"
    "later_in_round s1 t" by blast
  with step l1 show ?case by (auto intro: later_in_round_trans)
qed

lemma query_at_segment_flat_returns:
  assumes "table_ok P s" and "cell s py = cell s qy"
  shows "\<exists>t out. query_at_segment P s result px py qx qy salt = Some (t, out)
            \<and> later_in_round s t"
proof -
  let ?x0 = "cell s px" and ?x1 = "cell s qx" and ?y = "cell s qy"
  let ?sx = "if ?x0 < ?x1 then 1 else - 1 :: int"
  have "\<exists>t out. query_segment_loop P s result salt ?x0 ?y ?x1 ?y \<bar>?x1 - ?x0\<bar> 0 ?sx (- 1)
          \<bar>?x1 - ?x0\<bar> = Some (t, out) \<and> later_in_round s t"
    by (rule query_segment_loop_flat_returns [OF assms(1), where rx = "\<bar>?x1 - ?x0\<bar>"])
      (auto simp: algebra_simps)
  then show ?thesis using assms(2) by (simp add: query_at_segment_def Let_def)
qed

section \<open>What the queries return\<close>

lemma query_at_cell_eq:
  "query_at_cell P s result x y salt =
     (case query_cells P s salt [(x, y)] of
        None \<Rightarrow> None
      | Some (t, ds) \<Rightarrow> Some (t, concat (rev ds) @ result))"
  by (simp add: query_at_cell_def split: option.splits)











text \<open>The example table \<open>table_pair\<close> is what the two insertions build.\<close>

lemma table_pair_built:
  "Option.bind (insert_at_cell default_args (SpatialHash_new 1 16) 0 0 7 0)
     (\<lambda>s. insert_at_cell default_args s 1 0 8 0) = Some table_pair"
  by code_simp




section \<open>The test scenario, evaluated\<close>

subsection \<open>Bit lists as numbers\<close>

lemma length_addc [simp]: "length (addc xs ys c) = length xs"
  by (induction xs ys c rule: addc.induct) simp_all

lemma length_xorb [simp]: "length (xorb xs ys) = length xs"
  by (induction xs ys rule: xorb.induct) simp_all

lemma length_mulb [simp]: "length (mulb cs xs) = length cs"
  by (induction cs xs rule: mulb.induct) simp_all

lemma length_bits_of [simp]: "length (bits_of n k) = n"
  by (induction n k rule: bits_of.induct) simp_all

lemma bv_val_lt: "bv_val xs < 2 ^ length xs"
  by (induction xs) (auto simp: less_Suc_eq_le)


lemma bv_val_mod_self: "bv_val xs mod 2 ^ length xs = bv_val xs"
  using bv_val_lt [of xs] by simp




lemma bv_val_append: "bv_val (xs @ ys) = bv_val xs + 2 ^ length xs * bv_val ys"
  by (induction xs) (simp_all add: algebra_simps)

lemma bv_val_replicate_False [simp]: "bv_val (replicate n False) = 0"
  by (induction n) simp_all


lemma bv_val_take: "bv_val (take k xs) = bv_val xs mod 2 ^ k"
proof -
  have "bv_val xs = bv_val (take k xs @ drop k xs)" by simp
  also have "\<dots> = bv_val (take k xs) + 2 ^ length (take k xs) * bv_val (drop k xs)"
    by (rule bv_val_append)
  finally have eq: "bv_val xs = bv_val (take k xs) + 2 ^ min (length xs) k * bv_val (drop k xs)"
    by simp
  show ?thesis
  proof (cases "k \<le> length xs")
    case True
    then have "bv_val xs = bv_val (take k xs) + 2 ^ k * bv_val (drop k xs)"
      using eq by (simp add: min_def)
    moreover have "bv_val (take k xs) < 2 ^ k"
      using bv_val_lt [of "take k xs"] True by simp
    ultimately show ?thesis by simp
  next
    case False
    then have "(2 :: nat) ^ length xs \<le> 2 ^ k"
      by (intro power_increasing) simp_all
    then have "bv_val xs < 2 ^ k"
      using bv_val_lt [of xs] by linarith
    with False show ?thesis by simp
  qed
qed

lemma bv_val_bits_of: "bv_val (bits_of n k) = k mod 2 ^ n"
proof (induction n k rule: bits_of.induct)
  case (1 k)
  show ?case by simp
next
  case (2 n k)
  have "k mod (2 * 2 ^ n) = k mod 2 + 2 * ((k div 2) mod 2 ^ n)"
    by (simp add: mod_mult2_eq)
  with 2 show ?case by (simp add: odd_iff_mod_2_eq_one)
qed

lemma bv_val_inject:
  "length xs = length ys \<Longrightarrow> bv_val xs = bv_val ys \<Longrightarrow> xs = ys"
proof (induction xs arbitrary: ys)
  case Nil
  then show ?case by simp
next
  case (Cons x xs)
  then obtain y ys' where ys: "ys = y # ys'" by (cases ys) auto
  from Cons.prems ys have eq: "of_bool x + 2 * bv_val xs = (of_bool y :: nat) + 2 * bv_val ys'"
    by simp
  then have "odd (of_bool x + 2 * bv_val xs) = odd ((of_bool y :: nat) + 2 * bv_val ys')"
    by simp
  then have "x = y" by simp
  with eq have "bv_val xs = bv_val ys'" by simp
  with Cons ys \<open>x = y\<close> show ?case by simp
qed

lemma bits_of_bv_val: "bits_of (length xs) (bv_val xs) = xs"
  by (rule bv_val_inject) (simp_all add: bv_val_bits_of bv_val_mod_self)

subsection \<open>Bit lists as words\<close>












lemma length_bits32 [simp]: "length (bits32 k) = 32"
  by (simp add: bits32_def)


lemma length_times5 [simp]: "length (times5 h) = length h"
  by (simp add: times5_def)

lemma length_rot [simp]: "length (rot k xs) = length xs"
  by (simp add: rot_def)

lemma length_consts [simp]:
  "length bv_c1 = 32" "length bv_c2 = 32" "length bv_n = 32" "length bv_f1 = 32"
  "length bv_f2 = 32" "length bv_seed = 32" "length bv_sixteen = 32" "length bv_1000 = 42"
  "length bv_zero = 32"
  by (simp_all add: bv_c1_def bv_c2_def bv_n_def bv_f1_def bv_f2_def bv_seed_def bv_sixteen_def
      bv_1000_def bv_zero_def)


subsection \<open>The hash on bits is the hash on words\<close>

lemma length_kmix_bv [simp]: "length (kmix_bv b) = 32"
  by (simp add: kmix_bv_def)

lemma length_mix_bv [simp]: "length (mix_bv h k) = length h"
  by (simp add: mix_bv_def)

lemma length_fmix_bv [simp]: "length (fmix_bv h) = 32"
  by (simp add: fmix_bv_def fmixB_def fmixC_def)






subsection \<open>The index on bits is the reduced index\<close>



subsection \<open>The constants and the key-word table, bit by bit\<close>








subsection \<open>The trie\<close>

lemma twf_tupdate: "twf (length k) T \<Longrightarrow> twf (length k) (tupdate k a T)"
proof (induction k a T rule: tupdate.induct)
qed simp_all

lemma twf_tupdate_Empty: "twf (length k) (tupdate k a Empty)"
  by (rule twf_tupdate) simp



subsection \<open>The key-word table\<close>


lemma length_kmix_list [simp]: "length (kmix_list ts w) = length ts"
  by (induction ts w rule: kmix_list.induct) simp_all



lemma length_kmix_tab [simp]: "length kmix_tab = 32"
  by (simp add: kmix_tab_def)

lemma length_seedsA [simp]: "length seedsA = 11"
  by (simp add: seedsA_def)


subsection \<open>A probe on bits is the probe of the table\<close>



subsection \<open>Tables and their tries\<close>





subsection \<open>The claim resolver on the trie\<close>



subsection \<open>Insertions and queries on the trie\<close>





subsection \<open>The box loops as runs over the cells of the box\<close>









subsection \<open>Rules to run the evaluator by rewriting\<close>









subsection \<open>The test on the trie\<close>




end
